theory Spec2Isabelle
  imports Complex_Main
begin

section \<open>Shared conventions\<close>

text \<open>
  The development embeds \<^verbatim>\<open>morph_tagger/layers.py\<close>. The neural layers
  (embeddings, GRUs, linear maps, the pretrained contextual model and its tokenizer) and
  the numeric operations of the tensor library whose results depend on rounding or on
  the order of equal entries (\<^verbatim>\<open>softmax\<close>, \<^verbatim>\<open>topk\<close>,
  \<^verbatim>\<open>argmax\<close>) are parameters of the model: every theorem holds for all of
  them. Tensor entries are real numbers. A Python \<^verbatim>\<open>str\<close> is a \<open>string\<close>
  whose elements stand for code points, so \<open>length\<close> is Python's \<^verbatim>\<open>len\<close>.
\<close>

datatype error = KeyError | IndexError | RuntimeError

section \<open>DecoderRNN\<close>

text \<open>
  \<open>index2token\<close> is the dictionary built in \<^verbatim>\<open>__init__\<close>; \<open>init_hidden\<close> is
  the ReLU of the linear map \<^verbatim>\<open>W\<close> on the context vector stacked with the word
  embedding; \<open>gru_step\<close> is embedding, GRU and classifier applied to one token, giving
  the raw scores over the vocabulary and the next hidden state. \<open>softmax\<close> is
  \<^verbatim>\<open>self.softmax\<close> as the tensor library computes it. \<open>topk\<close> is
  \<^verbatim>\<open>t.topk(k)\<close> on a one-row tensor: the indices and values of \<open>k\<close> largest
  entries, largest first, or an error; which of several equal entries it returns is the
  library's choice.
\<close>

record ('v, 'h) DecoderRNN =
  index2token :: "nat \<rightharpoonup> string"
  vocab_size :: nat
  init_hidden :: "'v \<Rightarrow> 'v \<Rightarrow> 'h"
  gru_step :: "nat \<Rightarrow> 'h \<Rightarrow> real list \<times> 'h"
  softmax :: "real list \<Rightarrow> real list"
  topk :: "int \<Rightarrow> real list \<Rightarrow> error + (nat \<times> real) list"

subsection \<open>Greedy decoding: \<^verbatim>\<open>DecoderRNN.predict\<close>\<close>

text \<open>
  The \<^verbatim>\<open>for di in range(max_len)\<close> loop. The first argument counts the
  iterations that remain; \<open>scores\<close> collects the rows written so far.
\<close>

fun predict_loop ::
  "('v, 'h) DecoderRNN \<Rightarrow> nat \<Rightarrow> nat \<Rightarrow> 'h \<Rightarrow> real list list \<Rightarrow> string list
     \<Rightarrow> error + (real list list \<times> string list)" where
  "predict_loop d 0 predicted_token hidden scores predictions = Inr (scores, predictions)"
| "predict_loop d (Suc n) predicted_token hidden scores predictions =
     (case gru_step d predicted_token hidden of (output, hidden') \<Rightarrow>
        (case topk d 1 output of
           Inl e \<Rightarrow> Inl e
         | Inr best \<Rightarrow>
             (let tok = fst (hd best); scores' = scores @ [output] in
              if tok = 1 then Inr (scores', predictions)
              else if 2 < tok then
                (case index2token d tok of
                   None \<Rightarrow> Inl KeyError
                 | Some t \<Rightarrow> predict_loop d n tok hidden' scores' (predictions @ [t]))
              else predict_loop d n tok hidden' scores' predictions)))"

text \<open>
  \<^verbatim>\<open>scores = torch.zeros(max_len, self.vocab_size)\<close> raises on a negative
  \<open>max_len\<close>; the rows of the steps that did not run stay zero.
\<close>

definition predict ::
  "('v, 'h) DecoderRNN \<Rightarrow> 'v \<Rightarrow> 'v \<Rightarrow> int \<Rightarrow> error + (real list list \<times> string list)" where
  "predict d word_embedding context_vector max_len =
     (if max_len < 0 then Inl RuntimeError
      else case predict_loop d (nat max_len) 2 (init_hidden d word_embedding context_vector) [] [] of
             Inl e \<Rightarrow> Inl e
           | Inr (rows, predictions) \<Rightarrow>
               Inr (rows @ replicate (nat max_len - length rows) (replicate (vocab_size d) 0),
                    predictions))"

subsection \<open>Beam search: \<^verbatim>\<open>DecoderRNN.predict_beam\<close>\<close>

record 'h State =
  prediction :: string
  score :: real
  normalized_score :: real
  last_output :: nat
  hidden :: "'h"

text \<open>The body of \<^verbatim>\<open>for ix, score in zip(indices[0], scores[0])\<close> up to \<^verbatim>\<open>new_state\<close>.\<close>

definition new_state ::
  "('v, 'h) DecoderRNN \<Rightarrow> int \<Rightarrow> 'h State \<Rightarrow> 'h \<Rightarrow> nat \<times> real \<Rightarrow> error + 'h State" where
  "new_state d surface_len state hidden' cand =
     (case cand of (predicted_token, p) \<Rightarrow>
        (let score' = score state * p in
         if predicted_token = 1 then
           (let prediction' = prediction state;
                prediction_len = real (length prediction') + 1;
                normalized' = (score' / ((5 + prediction_len) / 6))
                                * (real_of_int surface_len / prediction_len)
            in Inr \<lparr>prediction = prediction', score = score', normalized_score = normalized',
                    last_output = predicted_token, hidden = hidden'\<rparr>)
         else
           (case index2token d predicted_token of
              None \<Rightarrow> Inl KeyError
            | Some t \<Rightarrow>
                (let prediction' = prediction state @ t;
                     normalized' = score' / ((5 + real (length prediction')) / 6)
                 in Inr \<lparr>prediction = prediction', score = score', normalized_score = normalized',
                         last_output = predicted_token, hidden = hidden'\<rparr>))))"

fun expand_candidates ::
  "('v, 'h) DecoderRNN \<Rightarrow> int \<Rightarrow> 'h State \<Rightarrow> 'h \<Rightarrow> (nat \<times> real) list
     \<Rightarrow> 'h State list \<Rightarrow> 'h State list \<Rightarrow> error + ('h State list \<times> 'h State list)" where
  "expand_candidates d surface_len state hidden' [] completed_states new_states =
     Inr (completed_states, new_states)"
| "expand_candidates d surface_len state hidden' (cand # cands) completed_states new_states =
     (case new_state d surface_len state hidden' cand of
        Inl e \<Rightarrow> Inl e
      | Inr s \<Rightarrow>
          if fst cand = 1
          then expand_candidates d surface_len state hidden' cands (completed_states @ [s]) new_states
          else expand_candidates d surface_len state hidden' cands completed_states (new_states @ [s]))"

text \<open>The inner \<^verbatim>\<open>while states\<close> loop, which pops the states of one generation.\<close>

fun expand_states ::
  "('v, 'h) DecoderRNN \<Rightarrow> int \<Rightarrow> int \<Rightarrow> 'h State list
     \<Rightarrow> 'h State list \<Rightarrow> 'h State list \<Rightarrow> error + ('h State list \<times> 'h State list)" where
  "expand_states d surface_len beam_size [] completed_states new_states =
     Inr (completed_states, new_states)"
| "expand_states d surface_len beam_size (state # states) completed_states new_states =
     (if surface_len + 2 \<le> int (length (prediction state))
      then expand_states d surface_len beam_size states completed_states new_states
      else
        (case gru_step d (last_output state) (hidden state) of (gru_outputs, hidden') \<Rightarrow>
           (case topk d beam_size (softmax d gru_outputs) of
              Inl e \<Rightarrow> Inl e
            | Inr cands \<Rightarrow>
                (case expand_candidates d surface_len state hidden' cands completed_states new_states of
                   Inl e \<Rightarrow> Inl e
                 | Inr (completed_states', new_states') \<Rightarrow>
                     expand_states d surface_len beam_size states completed_states' new_states'))))"

text \<open>
  \<^verbatim>\<open>sorted(states, key=attrgetter('normalized_score'), reverse=True)\<close>:
  Python's sort is stable, also with \<^verbatim>\<open>reverse=True\<close>.
\<close>

definition by_score :: "'h State list \<Rightarrow> 'h State list" where
  "by_score states = sort_key (\<lambda>s. - normalized_score s) states"

text \<open>
  The outer \<^verbatim>\<open>while states\<close> loop. Nothing in the source bounds its iterations,
  so the model counts them with fuel: \<open>None\<close> means that the loop was still running
  when the fuel ran out. It returns the completed states.
\<close>

fun beam_loop ::
  "nat \<Rightarrow> ('v, 'h) DecoderRNN \<Rightarrow> int \<Rightarrow> int \<Rightarrow> 'h State list \<Rightarrow> 'h State list
     \<Rightarrow> (error + 'h State list) option" where
  "beam_loop fuel d surface_len beam_size [] completed_states = Some (Inr completed_states)"
| "beam_loop 0 d surface_len beam_size (s # ss) completed_states = None"
| "beam_loop (Suc fuel) d surface_len beam_size (s # ss) completed_states =
     (case expand_states d surface_len beam_size (s # ss) completed_states [] of
        Inl e \<Rightarrow> Some (Inl e)
      | Inr (completed_states', new_states) \<Rightarrow>
          beam_loop fuel d surface_len beam_size
            (take (nat beam_size) (by_score new_states)) completed_states')"

definition initial_state :: "('v, 'h) DecoderRNN \<Rightarrow> 'v \<Rightarrow> 'v \<Rightarrow> 'h State" where
  "initial_state d word_embedding context_vector =
     \<lparr>prediction = [], score = 1, normalized_score = 1, last_output = 2,
      hidden = init_hidden d word_embedding context_vector\<rparr>"

definition beam_completed ::
  "nat \<Rightarrow> ('v, 'h) DecoderRNN \<Rightarrow> 'v \<Rightarrow> 'v \<Rightarrow> int \<Rightarrow> int \<Rightarrow> (error + 'h State list) option" where
  "beam_completed fuel d word_embedding context_vector surface_len beam_size =
     beam_loop fuel d surface_len beam_size [initial_state d word_embedding context_vector] []"

text \<open>
  \<^verbatim>\<open>sorted(completed_states, ...)[0].prediction\<close>: an empty list raises
  \<^verbatim>\<open>IndexError\<close>. The \<open>max_len\<close> argument is accepted and not read.
\<close>

definition predict_beam ::
  "nat \<Rightarrow> ('v, 'h) DecoderRNN \<Rightarrow> 'v \<Rightarrow> 'v \<Rightarrow> int \<Rightarrow> int \<Rightarrow> int \<Rightarrow> (error + string) option" where
  "predict_beam fuel d word_embedding context_vector surface_len beam_size max_len =
     (case beam_completed fuel d word_embedding context_vector surface_len beam_size of
        None \<Rightarrow> None
      | Some (Inl e) \<Rightarrow> Some (Inl e)
      | Some (Inr completed_states) \<Rightarrow>
          (case by_score completed_states of
             [] \<Rightarrow> Some (Inl IndexError)
           | s # _ \<Rightarrow> Some (Inr (prediction s))))"

subsection \<open>The generations of the beam search\<close>

text \<open>
  The body of the outer \<^verbatim>\<open>while states\<close> loop of \<^verbatim>\<open>predict_beam\<close>, run
  \<open>k\<close> times: the active states of generation \<open>k\<close> and the states completed so far.
\<close>

fun beam_generation ::
  "nat \<Rightarrow> ('v, 'h) DecoderRNN \<Rightarrow> int \<Rightarrow> int \<Rightarrow> 'h State list \<Rightarrow> 'h State list
     \<Rightarrow> error + ('h State list \<times> 'h State list)" where
  "beam_generation 0 d surface_len beam_size states completed_states =
     Inr (states, completed_states)"
| "beam_generation (Suc k) d surface_len beam_size states completed_states =
     (case expand_states d surface_len beam_size states completed_states [] of
        Inl e \<Rightarrow> Inl e
      | Inr (completed_states', new_states) \<Rightarrow>
          beam_generation k d surface_len beam_size
            (take (nat beam_size) (by_score new_states)) completed_states')"

subsection \<open>Greedy decoding in the words of the specification\<close>

text \<open>
  The tokens that a decoder prefers step after step, for \<open>n\<close> steps from a token and a
  hidden state: each step's arg-max token is the input of the next step. The list ends
  where \<^verbatim>\<open>topk\<close> raises.
\<close>

fun argmax_tokens :: "('v, 'h) DecoderRNN \<Rightarrow> nat \<Rightarrow> nat \<Rightarrow> 'h \<Rightarrow> nat list" where
  "argmax_tokens d 0 tok h = []"
| "argmax_tokens d (Suc n) tok h =
     (case gru_step d tok h of (output, h') \<Rightarrow>
        (case topk d 1 output of
           Inl e \<Rightarrow> []
         | Inr best \<Rightarrow> fst (hd best) # argmax_tokens d n (fst (hd best)) h'))"

text \<open>
  The specification's \<^verbatim>\<open>greedy_decode\<close>: start from start-of-sequence (2), pick the
  arg-max token at each step, stop the first time it is end-of-sequence (1) or after
  \<open>max_len\<close> steps, and keep the tokens that are not start, end or pad.
\<close>

definition greedy_decode :: "('v, 'h) DecoderRNN \<Rightarrow> 'v \<Rightarrow> 'v \<Rightarrow> nat \<Rightarrow> string list" where
  "greedy_decode d word_embedding context_vector max_len =
     map (\<lambda>i. the (index2token d i))
       (filter (\<lambda>i. i \<noteq> 2 \<and> i \<noteq> 1 \<and> i \<noteq> 0)
          (takeWhile (\<lambda>i. i \<noteq> 1)
             (argmax_tokens d max_len 2 (init_hidden d word_embedding context_vector))))"

text \<open>The number of decoder steps that the specification's greedy decoding takes.\<close>

definition greedy_steps :: "('v, 'h) DecoderRNN \<Rightarrow> 'v \<Rightarrow> 'v \<Rightarrow> nat \<Rightarrow> nat" where
  "greedy_steps d word_embedding context_vector max_len =
     min max_len
       (Suc (length (takeWhile (\<lambda>i. i \<noteq> 1)
          (argmax_tokens d max_len 2 (init_hidden d word_embedding context_vector)))))"

text \<open>
  The specification's greedy decoding runs to its end: end-of-sequence is reached or each
  of the \<open>max_len\<close> steps yields a token, and every token that is kept is in the
  vocabulary.
\<close>

definition greedy_returns :: "('v, 'h) DecoderRNN \<Rightarrow> 'v \<Rightarrow> 'v \<Rightarrow> nat \<Rightarrow> bool" where
  "greedy_returns d word_embedding context_vector max_len =
     (let toks = argmax_tokens d max_len 2 (init_hidden d word_embedding context_vector) in
      (1 \<in> set toks \<or> length toks = max_len)
      \<and> list_all (\<lambda>i. index2token d i \<noteq> None)
            (filter (\<lambda>i. 2 < i) (takeWhile (\<lambda>i. i \<noteq> 1) toks)))"

text \<open>
  On a row of raw scores, \<^verbatim>\<open>topk(1)\<close> picks the same index before and after
  the decoder's softmax.
\<close>

definition softmax_keeps_top :: "('v, 'h) DecoderRNN \<Rightarrow> real list \<Rightarrow> bool" where
  "softmax_keeps_top d out =
     (case (topk d 1 out, topk d 1 (softmax d out)) of
        (Inr [(i, p)], Inr [(j, q)]) \<Rightarrow> i = j
      | _ \<Rightarrow> False)"

text \<open>The bound that the beam search keeps on completed states.\<close>

definition length_ok :: "int \<Rightarrow> 'h State \<Rightarrow> bool" where
  "length_ok surface_len s = (int (length (prediction s)) \<le> surface_len + 2)"

section \<open>EncoderRNN\<close>

text \<open>
  \<open>x\<close> is the character tensor as the list of its rows, one row of character indices
  per word (\<^verbatim>\<open>x.size(1)\<close> rows). \<open>char_gru\<close> is embedding, dropout and the
  character GRU on one row: the GRU takes the rows as the elements of a batch, so it
  gives one word vector per row. \<open>xlmr\<close> is the tokenizer and the pretrained model:
  the word alignment
  \<^verbatim>\<open>inputs.word_ids(batch_index=0)\<close> and one hidden vector per subword token.
  \<open>vec_mean\<close> is \<^verbatim>\<open>mean(dim=0)\<close>; \<open>context_proj\<close> is the linear
  projection followed by dropout.
\<close>

record ('x, 'w, 'v, 'c) EncoderRNN =
  char_gru :: "'x \<Rightarrow> 'w"
  xlmr :: "string list \<Rightarrow> nat option list \<times> 'v list"
  vec_mean :: "'v list \<Rightarrow> 'v"
  context_proj :: "'v \<Rightarrow> 'c"

text \<open>
  \<^verbatim>\<open>[i for i, w_id in enumerate(word_ids) if w_id == word_idx]\<close>
\<close>

definition subword_indices :: "nat option list \<Rightarrow> nat \<Rightarrow> nat list" where
  "subword_indices word_ids word_idx =
     filter (\<lambda>i. word_ids ! i = Some word_idx) [0..<length word_ids]"

text \<open>
  The loop \<^verbatim>\<open>for word_idx in range(len(sentence_text))\<close>. Indexing
  \<^verbatim>\<open>last_hidden\<close> beyond its rows raises \<^verbatim>\<open>IndexError\<close>.
\<close>

fun xlmr_loop ::
  "('v list \<Rightarrow> 'v) \<Rightarrow> nat option list \<Rightarrow> 'v list \<Rightarrow> nat list \<Rightarrow> 'v list \<Rightarrow> error + 'v list" where
  "xlmr_loop mn word_ids last_hidden [] xlmr_embeddings = Inr xlmr_embeddings"
| "xlmr_loop mn word_ids last_hidden (word_idx # rest) xlmr_embeddings =
     (let ixs = subword_indices word_ids word_idx in
      if ixs \<noteq> [] then
        (if list_all (\<lambda>i. i < length last_hidden) ixs
         then xlmr_loop mn word_ids last_hidden rest
                (xlmr_embeddings @ [mn (map (\<lambda>i. last_hidden ! i) ixs)])
         else Inl IndexError)
      else xlmr_loop mn word_ids last_hidden rest xlmr_embeddings)"

text \<open>\<^verbatim>\<open>torch.stack\<close> of an empty list raises \<^verbatim>\<open>RuntimeError\<close>.\<close>

definition forward ::
  "('x, 'w, 'v, 'c) EncoderRNN \<Rightarrow> 'x list \<Rightarrow> string list \<Rightarrow> error + ('w list \<times> 'c list)" where
  "forward enc x sentence_text =
     (let word_embeddings = map (char_gru enc) x in
      case xlmr enc sentence_text of (word_ids, last_hidden) \<Rightarrow>
        (case xlmr_loop (vec_mean enc) word_ids last_hidden [0..<length sentence_text] [] of
           Inl e \<Rightarrow> Inl e
         | Inr xlmr_embeddings \<Rightarrow>
             if xlmr_embeddings = [] then Inl RuntimeError
             else Inr (word_embeddings, map (context_proj enc) xlmr_embeddings)))"

section \<open>TransformerRNN\<close>

text \<open>
  \<open>label_scores\<close> is the network up to the classifier: for each word and each character
  position, the raw scores over the edit labels. \<^verbatim>\<open>inverse_transformation\<close> is
  imported from \<^verbatim>\<open>data_utils\<close>; it is a parameter of \<open>transformer_predict\<close>.
  \<open>label_softmax\<close> is \<^verbatim>\<open>self.softmax\<close> on the scores of one position and
  \<open>argmax\<close> is \<^verbatim>\<open>torch.argmax\<close> on them, as the tensor library computes
  them.
\<close>

record ('e, 'x) TransformerRNN =
  index2transformation :: "nat \<rightharpoonup> string"
  label_scores :: "'e \<Rightarrow> 'e \<Rightarrow> 'x \<Rightarrow> real list list list"
  label_softmax :: "real list \<Rightarrow> real list"
  argmax :: "real list \<Rightarrow> error + nat"

text \<open>A list comprehension whose body may raise: the first exception ends it.\<close>

fun traverse :: "('a \<Rightarrow> error + 'b) \<Rightarrow> 'a list \<Rightarrow> error + 'b list" where
  "traverse f [] = Inr []"
| "traverse f (x # xs) =
     (case f x of
        Inl e \<Rightarrow> Inl e
      | Inr y \<Rightarrow> (case traverse f xs of Inl e \<Rightarrow> Inl e | Inr ys \<Rightarrow> Inr (y # ys)))"

text \<open>
  The softmax scores and
  \<^verbatim>\<open>[[self.index2transformation[ix.item()] for ix in _scores]
     for _scores in torch.argmax(scores, 2)]\<close>
\<close>

definition predicted_labels ::
  "('e, 'x) TransformerRNN \<Rightarrow> 'e \<Rightarrow> 'e \<Rightarrow> 'x
     \<Rightarrow> error + (real list list list \<times> string list list)" where
  "predicted_labels t word_embeddings context_vectors x =
     (let scores = map (map (label_softmax t)) (label_scores t word_embeddings context_vectors x) in
      case traverse (traverse (argmax t)) scores of
        Inl e \<Rightarrow> Inl e
      | Inr ixs \<Rightarrow>
          (case traverse (traverse (\<lambda>ix. case index2transformation t ix of
                                             Some label \<Rightarrow> Inr label
                                           | None \<Rightarrow> Inl KeyError)) ixs of
             Inl e \<Rightarrow> Inl e
           | Inr predictions \<Rightarrow> Inr (scores, predictions)))"

text \<open>
  \<^verbatim>\<open>[inverse_transformation(surface, prediction[:len(surface)])
     for surface, prediction in zip(surfaces, predictions)]\<close>
\<close>

definition reconstruct ::
  "(string \<Rightarrow> string list \<Rightarrow> error + string) \<Rightarrow> string list \<Rightarrow> string list list
     \<Rightarrow> error + string list" where
  "reconstruct inverse_transformation surfaces predictions =
     traverse (\<lambda>(surface, prediction).
                 inverse_transformation surface (take (length surface) prediction))
       (zip surfaces predictions)"

definition transformer_predict ::
  "('e, 'x) TransformerRNN \<Rightarrow> (string \<Rightarrow> string list \<Rightarrow> error + string)
     \<Rightarrow> 'e \<Rightarrow> 'e \<Rightarrow> 'x \<Rightarrow> string list \<Rightarrow> error + (real list list list \<times> string list)" where
  "transformer_predict t inverse_transformation word_embeddings context_vectors x surfaces =
     (case predicted_labels t word_embeddings context_vectors x of
        Inl e \<Rightarrow> Inl e
      | Inr (scores, predictions) \<Rightarrow>
          (case reconstruct inverse_transformation surfaces predictions of
             Inl e \<Rightarrow> Inl e
           | Inr lemmas \<Rightarrow> Inr (scores, lemmas)))"

section \<open>Example models\<close>

text \<open>
  An exact numeric backend, over the real numbers: the softmax without rounding, and a
  \<open>topk\<close> that sorts stably, so that equal entries come in index order.
\<close>

definition exact_topk :: "int \<Rightarrow> real list \<Rightarrow> error + (nat \<times> real) list" where
  "exact_topk k xs =
     (if k < 0 \<or> int (length xs) < k then Inl RuntimeError
      else Inr (take (nat k) (sort_key (\<lambda>p. - snd p) (zip [0..<length xs] xs))))"

definition exact_softmax :: "real list \<Rightarrow> real list" where
  "exact_softmax xs = map (\<lambda>x. exp x / sum_list (map exp xs)) xs"

definition exact_argmax :: "real list \<Rightarrow> error + nat" where
  "exact_argmax xs = (case exact_topk 1 xs of Inl e \<Rightarrow> Inl e | Inr best \<Rightarrow> Inr (fst (hd best)))"

text \<open>
  A softmax that rounds as single precision does where all scores of a row lie within
  \<^verbatim>\<open>2 ** -25\<close> of the largest: every \<open>exp (x - max)\<close> rounds to 1 and the
  row comes out uniform. Elsewhere it is the exact softmax.
\<close>

definition rounding_softmax :: "real list \<Rightarrow> real list" where
  "rounding_softmax xs =
     (if list_all (\<lambda>x. list_all (\<lambda>y. y - x < 1 / 2 ^ 25) xs) xs
      then replicate (length xs) (1 / real (length xs))
      else exact_softmax xs)"

text \<open>
  Small decoders on which the theorems are evaluated, with the exact backend. The
  vocabulary is
  \<^verbatim>\<open>{'_': 0, '$': 1, '^': 2, t: 3}\<close>. \<open>toy_decoder n t\<close> prefers
  token 3 for its first \<open>n\<close> steps and end-of-sequence afterwards; the hidden state
  counts the steps. \<open>looping_decoder t\<close> prefers token 3 at every step.
\<close>

definition toy_vocab :: "string \<Rightarrow> nat \<rightharpoonup> string" where
  "toy_vocab t = [0 \<mapsto> ''_'', 1 \<mapsto> ''$'', 2 \<mapsto> ''^'', 3 \<mapsto> t]"

definition toy_decoder :: "nat \<Rightarrow> string \<Rightarrow> (unit, nat) DecoderRNN" where
  "toy_decoder n t =
     \<lparr>index2token = toy_vocab t, vocab_size = 4, init_hidden = (\<lambda>_ _. 0),
      gru_step = (\<lambda>tok h. (if h < n then [0, 0, 0, 1] else [0, 1, 0, 0], Suc h)),
      softmax = exact_softmax, topk = exact_topk\<rparr>"

definition looping_decoder :: "string \<Rightarrow> (unit, unit) DecoderRNN" where
  "looping_decoder t =
     \<lparr>index2token = toy_vocab t, vocab_size = 4, init_hidden = (\<lambda>_ _. ()),
      gru_step = (\<lambda>tok h. ([0, 0, 0, 1], h)),
      softmax = exact_softmax, topk = exact_topk\<rparr>"

text \<open>\<open>pad_decoder\<close> prefers the padding token 0 at its first step and end-of-sequence afterwards.\<close>

definition pad_decoder :: "(unit, nat) DecoderRNN" where
  "pad_decoder =
     \<lparr>index2token = toy_vocab ''a'', vocab_size = 4, init_hidden = (\<lambda>_ _. 0),
      gru_step = (\<lambda>tok h. (if h = 0 then [1, 0, 0, 0] else [0, 1, 0, 0], Suc h)),
      softmax = exact_softmax, topk = exact_topk\<rparr>"

text \<open>
  \<open>near_tie_decoder\<close> scores token 3 above the others by \<^verbatim>\<open>1e-8\<close> at
  its first step and prefers end-of-sequence afterwards; its softmax rounds.
\<close>

definition near_tie_decoder :: "(unit, nat) DecoderRNN" where
  "near_tie_decoder =
     \<lparr>index2token = toy_vocab ''a'', vocab_size = 4, init_hidden = (\<lambda>_ _. 0),
      gru_step = (\<lambda>tok h. (if h = 0 then [0, 0, 0, 1 / 100000000] else [0, 1, 0, 0], Suc h)),
      softmax = rounding_softmax, topk = exact_topk\<rparr>"

text \<open>
  Modelled from the spec: \<^verbatim>\<open>inverse_transformation\<close> of
  \<^verbatim>\<open>data_utils\<close> is not among the sources. \<open>keep_delete\<close> applies the Keep and
  Delete rules of the specification, one label per character, and fails on an unknown
  label or on a label sequence of another length than the word. It is the
  instance on which the theorem about \<open>reconstruct\<close> is evaluated.
\<close>

fun keep_delete :: "string \<Rightarrow> string list \<Rightarrow> error + string" where
  "keep_delete [] [] = Inr []"
| "keep_delete (c # cs) (l # ls) =
     (if l = ''keep'' then
        (case keep_delete cs ls of Inl e \<Rightarrow> Inl e | Inr r \<Rightarrow> Inr (c # r))
      else if l = ''delete'' then keep_delete cs ls
      else Inl KeyError)"
| "keep_delete [] (l # ls) = Inl IndexError"
| "keep_delete (c # cs) [] = Inl IndexError"

text \<open>
  An encoder over real numbers as vectors: the word vector is the number of characters,
  the subword vectors are \<open>0, 1, 2, \<dots>\<close>, the projection doubles. The word alignment
  is the parameter.
\<close>

definition toy_encoder :: "nat option list \<Rightarrow> (nat list, real, real, real) EncoderRNN" where
  "toy_encoder word_ids =
     \<lparr>char_gru = (\<lambda>w. real (length w)),
      xlmr = (\<lambda>sentence_text. (word_ids, map real [0..<length word_ids])),
      vec_mean = (\<lambda>vs. sum_list vs / real (length vs)),
      context_proj = (\<lambda>v. 2 * v)\<rparr>"

text \<open>
  A labeler with the labels \<^verbatim>\<open>{'keep': 0, 'delete': 1}\<close> whose network returns the
  given scores for every input.
\<close>

definition toy_transformer :: "real list list list \<Rightarrow> (unit, unit) TransformerRNN" where
  "toy_transformer raw =
     \<lparr>index2transformation = [0 \<mapsto> ''keep'', 1 \<mapsto> ''delete''],
      label_scores = (\<lambda>word_embeddings context_vectors x. raw),
      label_softmax = exact_softmax, argmax = exact_argmax\<rparr>"

section \<open>Auxiliary lemmas\<close>

subsection \<open>Unfolding the loops at a concrete iteration count\<close>

lemma beam_loop_unfold:
  "beam_loop fuel d sl bs (s # ss) cs =
     (if fuel = 0 then None
      else case expand_states d sl bs (s # ss) cs [] of
             Inl e \<Rightarrow> Some (Inl e)
           | Inr (cs', ns) \<Rightarrow> beam_loop (fuel - 1) d sl bs (take (nat bs) (by_score ns)) cs')"
  by (cases fuel) (auto split: sum.splits prod.splits simp del: expand_states.simps)

lemma predict_loop_unfold:
  "predict_loop d n tok h scores ps =
     (if n = 0 then Inr (scores, ps)
      else case gru_step d tok h of (output, h') \<Rightarrow>
        (case topk d 1 output of
           Inl e \<Rightarrow> Inl e
         | Inr best \<Rightarrow>
             (let tok' = fst (hd best); scores' = scores @ [output] in
              if tok' = 1 then Inr (scores', ps)
              else if 2 < tok' then
                (case index2token d tok' of
                   None \<Rightarrow> Inl KeyError
                 | Some t \<Rightarrow> predict_loop d (n - 1) tok' h' scores' (ps @ [t]))
              else predict_loop d (n - 1) tok' h' scores' ps)))"
  by (cases n) (auto split: sum.splits prod.splits option.splits simp: Let_def)

subsection \<open>The exact softmax keeps the order of the scores\<close>

lemma insort_key_map_mono:
  assumes "\<And>y. y \<in> set ys \<Longrightarrow> (k' (f a) \<le> k' (f y)) = (k a \<le> k y)"
  shows "insort_key k' (f a) (map f ys) = map f (insort_key k a ys)"
  using assms by (induction ys) auto

lemma sort_key_map_mono:
  assumes "\<And>x y. (k' (f x) \<le> k' (f y)) = (k x \<le> (k y :: real))"
  shows "sort_key k' (map f xs) = map f (sort_key k xs)"
proof (induction xs)
  case Nil
  show ?case by simp
next
  case (Cons a xs)
  have "insort_key k' (f a) (map f (sort_key k xs)) = map f (insort_key k a (sort_key k xs))"
    by (rule insort_key_map_mono) (rule assms)
  with Cons show ?case by simp
qed

lemma topk_strict_mono:
  assumes "\<And>x y. (g x \<le> g y) = (x \<le> (y::real))"
  shows "exact_topk k (map g xs) =
    (case exact_topk k xs of Inl e \<Rightarrow> Inl e | Inr cs \<Rightarrow> Inr (map (\<lambda>c. (fst c, g (snd c))) cs))"
proof -
  have z: "zip [0..<length xs] (map g xs) = map (\<lambda>c. (fst c, g (snd c))) (zip [0..<length xs] xs)"
    by (simp add: zip_map2 case_prod_unfold)
  have "sort_key (\<lambda>p. - snd p) (map (\<lambda>c. (fst c, g (snd c))) (zip [0..<length xs] xs))
      = map (\<lambda>c. (fst c, g (snd c))) (sort_key (\<lambda>p. - snd p) (zip [0..<length xs] xs))"
    by (rule sort_key_map_mono) (simp add: assms)
  with z show ?thesis by (simp add: exact_topk_def take_map)
qed

lemma topk_softmax:
  "exact_topk k (exact_softmax xs) =
    (case exact_topk k xs of Inl e \<Rightarrow> Inl e
     | Inr cs \<Rightarrow> Inr (map (\<lambda>c. (fst c, exp (snd c) / sum_list (map exp xs))) cs))"
proof (cases "xs = []")
  case True
  then show ?thesis by (simp add: exact_softmax_def exact_topk_def)
next
  case False
  then obtain a as where xs: "xs = a # as" by (cases xs) auto
  have "0 \<le> sum_list (map exp as)" by (rule sum_list_nonneg) auto
  then have "0 < exp a + sum_list (map exp as)" using exp_gt_zero[of a] by linarith
  with xs have "0 < sum_list (map exp xs)" by simp
  then have "\<And>x y. (exp x / sum_list (map exp xs) \<le> exp y / sum_list (map exp xs)) = (x \<le> (y::real))"
    by (simp add: divide_le_cancel)
  then show ?thesis unfolding exact_softmax_def by (rule topk_strict_mono)
qed

lemma topk_one: "exact_topk 1 out = Inr best \<Longrightarrow> best = [hd best]"
proof -
  assume a: "exact_topk 1 out = Inr best"
  then have b: "best = take 1 (sort_key (\<lambda>p. - snd p) (zip [0..<length out] out))"
    and "out \<noteq> []"
    by (auto simp: exact_topk_def split: if_splits)
  then have "1 \<le> length out" by (cases out) simp_all
  with b have "length best = 1" by simp
  then show "best = [hd best]" by (cases best) simp_all
qed

lemma topk_one_softmax:
  assumes "exact_topk 1 out = Inr best"
  shows "exact_topk 1 (exact_softmax out) = Inr [(fst (hd best), exp (snd (hd best)) / sum_list (map exp out))]"
proof -
  from topk_one [OF assms] obtain b where b: "best = [b]" by blast
  then have "map (\<lambda>c. (fst c, exp (snd c) / sum_list (map exp out))) best
      = [(fst (hd best), exp (snd (hd best)) / sum_list (map exp out))]"
    by simp
  with assms show ?thesis by (simp add: topk_softmax)
qed

lemma topk_prefers_token: "exact_topk 1 [0, 0, 0, 1] = Inr [(3, 1)]"
  by (simp add: exact_topk_def)

lemma topk_prefers_eos: "exact_topk 1 [0, 1, 0, 0] = Inr [(1, 1)]"
  by (simp add: exact_topk_def)

lemma set_by_score: "set (by_score xs) = set xs"
  by (simp add: by_score_def)

section \<open>Beam search does not read \<open>max_len\<close>\<close>

text \<open>
  Claim C9. The sequence returned by \<^verbatim>\<open>predict_beam\<close> does not depend on its
  \<open>max_len\<close> argument: two calls that differ only in \<open>max_len\<close> give the same outcome,
  whether a prediction, an error, or a loop that is still running after the same number
  of iterations.
\<close>

theorem predict_beam_max_len_independent:
  "predict_beam fuel d word_embedding context_vector surface_len beam_size max_len1 =
   predict_beam fuel d word_embedding context_vector surface_len beam_size max_len2"
  by (simp add: predict_beam_def)

section \<open>Completed states respect the length bound\<close>

lemma new_state_eos_prediction:
  "new_state d sl st h' (1, p) = Inr s \<Longrightarrow> prediction s = prediction st"
  by (auto simp: new_state_def Let_def)

lemma expand_candidates_completed:
  assumes "expand_candidates d sl st h' cands cs ns = Inr (cs', ns')"
    and "list_all P cs" and "\<And>s p. new_state d sl st h' (1, p) = Inr s \<Longrightarrow> P s"
  shows "list_all P cs'"
  using assms
proof (induction cands arbitrary: cs ns)
  case Nil
  then show ?case by simp
next
  case (Cons cand cands)
  obtain ix p where c: "cand = (ix, p)" by (cases cand)
  show ?case
  proof (cases "new_state d sl st h' cand")
    case (Inl e)
    with Cons.prems show ?thesis by simp
  next
    case (Inr s)
    show ?thesis
    proof (cases "ix = 1")
      case True
      with Inr c Cons.prems(3) have "P s" by simp
      with Cons.prems(2) have "list_all P (cs @ [s])" by simp
      moreover from Cons.prems(1) Inr c True
      have "expand_candidates d sl st h' cands (cs @ [s]) ns = Inr (cs', ns')" by simp
      ultimately show ?thesis using Cons.IH Cons.prems(3) by blast
    next
      case False
      with Cons.prems(1) Inr c
      have "expand_candidates d sl st h' cands cs (ns @ [s]) = Inr (cs', ns')" by simp
      then show ?thesis using Cons.IH Cons.prems(2,3) by blast
    qed
  qed
qed

lemma expand_states_completed:
  assumes "expand_states d sl bs states cs ns = Inr (cs', ns')" and "list_all (length_ok sl) cs"
  shows "list_all (length_ok sl) cs'"
  using assms
proof (induction states arbitrary: cs ns)
  case Nil
  then show ?case by simp
next
  case (Cons st states)
  show ?case
  proof (cases "sl + 2 \<le> int (length (prediction st))")
    case True
    with Cons show ?thesis by simp
  next
    case False
    obtain out h' where g: "gru_step d (last_output st) (hidden st) = (out, h')"
      by (cases "gru_step d (last_output st) (hidden st)")
    from Cons.prems(1) False g obtain cands cs1 ns1 where
      t: "topk d bs (softmax d out) = Inr cands"
      and e: "expand_candidates d sl st h' cands cs ns = Inr (cs1, ns1)"
      and r: "expand_states d sl bs states cs1 ns1 = Inr (cs', ns')"
      by (auto split: sum.splits)
    have "\<And>s p. new_state d sl st h' (1, p) = Inr s \<Longrightarrow> length_ok sl s"
    proof -
      fix s p assume "new_state d sl st h' (1, p) = Inr s"
      then have "prediction s = prediction st" by (rule new_state_eos_prediction)
      with False show "length_ok sl s" by (simp add: length_ok_def)
    qed
    with e Cons.prems(2) have "list_all (length_ok sl) cs1"
      by (rule expand_candidates_completed)
    with r show ?thesis by (rule Cons.IH)
  qed
qed

lemma beam_loop_completed:
  assumes "beam_loop fuel d sl bs states cs = Some (Inr cs')" and "list_all (length_ok sl) cs"
  shows "list_all (length_ok sl) cs'"
  using assms
proof (induction fuel d sl bs states cs rule: beam_loop.induct)
  case (1 fuel d sl bs cs)
  then show ?case by simp
next
  case (2 d sl bs s ss cs)
  then show ?case by simp
next
  case (3 fuel d sl bs s ss cs)
  from "3.prems"(1) obtain cs1 ns1 where
    e: "expand_states d sl bs (s # ss) cs [] = Inr (cs1, ns1)"
    by (auto split: sum.splits)
  with "3.prems"(1)
  have l: "beam_loop fuel d sl bs (take (nat bs) (by_score ns1)) cs1 = Some (Inr cs')"
    by simp
  from e "3.prems"(2) have "list_all (length_ok sl) cs1" by (rule expand_states_completed)
  with "3.IH" e l show ?case by simp
qed

text \<open>
  Claim C4. Every state in the completed set of \<^verbatim>\<open>predict_beam\<close> has a
  prediction of length at most \<open>surface_len + 2\<close>, and so has the sequence that
  \<^verbatim>\<open>predict_beam\<close> returns.
\<close>

theorem completed_length_bound:
  "(beam_completed fuel d we cv surface_len beam_size = Some (Inr completed_states)
      \<longrightarrow> list_all (\<lambda>s. int (length (prediction s)) \<le> surface_len + 2) completed_states)
   \<and> (predict_beam fuel d we cv surface_len beam_size max_len = Some (Inr p)
      \<longrightarrow> int (length p) \<le> surface_len + 2)"
proof (intro conjI impI)
  assume "beam_completed fuel d we cv surface_len beam_size = Some (Inr completed_states)"
  then have "list_all (length_ok surface_len) completed_states"
    unfolding beam_completed_def by (rule beam_loop_completed) simp
  then show "list_all (\<lambda>s. int (length (prediction s)) \<le> surface_len + 2) completed_states"
    by (simp add: length_ok_def[abs_def])
next
  assume a: "predict_beam fuel d we cv surface_len beam_size max_len = Some (Inr p)"
  then obtain cs s rest where c: "beam_completed fuel d we cv surface_len beam_size = Some (Inr cs)"
    and b: "by_score cs = s # rest" and p: "p = prediction s"
    by (auto simp: predict_beam_def split: option.splits sum.splits list.splits)
  from c have "list_all (length_ok surface_len) cs"
    unfolding beam_completed_def by (rule beam_loop_completed) simp
  moreover from b have "s \<in> set cs" by (metis list.set_intros(1) set_by_score)
  ultimately have "length_ok surface_len s" by (simp add: list_all_iff)
  with p show "int (length p) \<le> surface_len + 2" by (simp add: length_ok_def)
qed

lemma toy_beam_completed:
  "\<exists>sc nsc. beam_completed 5 (toy_decoder 1 ''a'') () () 1 1 =
     Some (Inr [\<lparr>prediction = ''a'', score = sc, normalized_score = nsc,
                 last_output = 1, hidden = 2\<rparr>])"
  by (simp add: beam_completed_def initial_state_def toy_decoder_def toy_vocab_def
      beam_loop_unfold topk_softmax topk_prefers_token topk_prefers_eos new_state_def
      by_score_def)

theorem completed_length_bound_witness:
  "\<exists>cs. beam_completed 5 (toy_decoder 1 ''a'') () () 1 1 = Some (Inr cs)
      \<and> map prediction cs = [''a'']
      \<and> list_all (\<lambda>s. int (length (prediction s)) \<le> 1 + 2) cs
      \<and> predict_beam 5 (toy_decoder 1 ''a'') () () 1 1 50 = Some (Inr ''a'')
      \<and> int (length ''a'') \<le> 1 + 2"
proof -
  from toy_beam_completed obtain sc nsc where
    c: "beam_completed 5 (toy_decoder 1 ''a'') () () 1 1 =
          Some (Inr [\<lparr>prediction = ''a'', score = sc, normalized_score = nsc,
                      last_output = 1, hidden = 2\<rparr>])"
    by blast
  then have p: "predict_beam 5 (toy_decoder 1 ''a'') () () 1 1 50 = Some (Inr ''a'')"
    by (simp add: predict_beam_def by_score_def)
  from c p completed_length_bound
    [of 5 "toy_decoder 1 ''a''" "()" "()" 1 1
        "[\<lparr>prediction = ''a'', score = sc, normalized_score = nsc, last_output = 1, hidden = 2\<rparr>]"
        50 "''a''"]
  show ?thesis by simp
qed

section \<open>An empty completed set is an error\<close>

lemma looping_beam_completed:
  "beam_completed 5 (looping_decoder ''a'') () () 0 1 = Some (Inr [])"
  by (simp add: beam_completed_def initial_state_def looping_decoder_def toy_vocab_def
      beam_loop_unfold topk_softmax topk_prefers_token new_state_def by_score_def)

text \<open>
  Claim C6. When the beam search ends with no completed state, the caller of
  \<^verbatim>\<open>predict_beam\<close> gets an error (Python's \<^verbatim>\<open>IndexError\<close>, from
  indexing the empty sorted list), not a sequence.
\<close>

theorem empty_beam_raises:
  "beam_completed fuel d we cv surface_len beam_size = Some (Inr [])
     \<Longrightarrow> predict_beam fuel d we cv surface_len beam_size max_len = Some (Inl IndexError)"
  by (simp add: predict_beam_def by_score_def)

theorem empty_beam_raises_witness:
  "beam_completed 5 (looping_decoder ''a'') () () 0 1 = Some (Inr [])
     \<and> predict_beam 5 (looping_decoder ''a'') () () 0 1 50 = Some (Inl IndexError)"
  using looping_beam_completed
    empty_beam_raises [of 5 "looping_decoder ''a''" "()" "()" 0 1 50, OF looping_beam_completed]
  by simp

section \<open>The length penalty of a candidate\<close>

text \<open>
  Claim C2, as the code has it. Expanding a state by a candidate token divides the new
  cumulative score by \<open>(5 + effective_length) / 6\<close>. For a candidate other than
  end-of-sequence the effective length is the length of the extended prediction. For
  end-of-sequence it is the length of the unextended prediction plus one, and the
  result is also multiplied by \<open>surface_len / effective_length\<close>.
\<close>

theorem new_state_length_penalty:
  "new_state d surface_len state hidden' (tok, p) = Inr s \<Longrightarrow>
     score s = score state * p \<and>
     normalized_score s =
       (if tok = 1
        then score s / ((5 + (real (length (prediction state)) + 1)) / 6)
               * (real_of_int surface_len / (real (length (prediction state)) + 1))
        else score s / ((5 + real (length (prediction s))) / 6))"
  by (auto simp: new_state_def Let_def split: option.splits)

theorem new_state_length_penalty_witness:
  "new_state (looping_decoder ''a'') 3
      \<lparr>prediction = ''a'', score = 3/5, normalized_score = 3/5, last_output = 3, hidden = ()\<rparr>
      () (1, 2/5)
     = Inr \<lparr>prediction = ''a'', score = 6/25, normalized_score = 54/175, last_output = 1,
            hidden = ()\<rparr>
   \<and> (54/175 :: real) = (6/25) / ((5 + (real (length ''a'') + 1)) / 6)
                           * (real_of_int 3 / (real (length ''a'') + 1))"
proof -
  have e: "new_state (looping_decoder ''a'') 3
      \<lparr>prediction = ''a'', score = 3/5, normalized_score = 3/5, last_output = 3, hidden = ()\<rparr>
      () (1, 2/5)
     = Inr \<lparr>prediction = ''a'', score = 6/25, normalized_score = 54/175, last_output = 1,
            hidden = ()\<rparr>"
    by (simp add: new_state_def)
  from new_state_length_penalty [OF e] e show ?thesis by simp
qed

text \<open>
  The claim as written takes the unextended length itself as the effective length of an
  end-of-sequence candidate. On a state with prediction \<open>a\<close> and score \<open>3/5\<close>, a hint
  of 3 and an end-of-sequence candidate of probability \<open>2/5\<close>, that would give
  \<open>18/25\<close>; the code gives \<open>54/175\<close>.
\<close>

theorem new_state_length_penalty_counterexample:
  "new_state (looping_decoder ''a'') 3
      \<lparr>prediction = ''a'', score = 3/5, normalized_score = 3/5, last_output = 3, hidden = ()\<rparr>
      () (1, 2/5)
     = Inr \<lparr>prediction = ''a'', score = 6/25, normalized_score = 54/175, last_output = 1,
            hidden = ()\<rparr>
   \<and> (54/175 :: real) \<noteq> ((3/5) * (2/5)) / ((5 + real (length ''a'')) / 6)
                           * (real_of_int 3 / real (length ''a''))"
  by (simp add: new_state_def)

section \<open>Reconstruction reads only the labels of the input positions\<close>

lemma traverse_cong:
  "(\<And>x. x \<in> set xs \<Longrightarrow> f x = g x) \<Longrightarrow> traverse f xs = traverse g xs"
  by (induction xs) (auto split: sum.splits)

lemma traverse_map: "traverse f (map g xs) = traverse (\<lambda>x. f (g x)) xs"
  by (induction xs) (auto split: sum.splits)

lemma traverse_Inr_nth:
  "traverse f xs = Inr ys \<Longrightarrow> length ys = length xs \<and> (\<forall>k < length xs. f (xs ! k) = Inr (ys ! k))"
proof (induction xs arbitrary: ys)
  case Nil
  then show ?case by simp
next
  case (Cons x xs)
  from Cons.prems obtain y ys' where fx: "f x = Inr y" and t: "traverse f xs = Inr ys'"
    and ys: "ys = y # ys'"
    by (auto split: sum.splits)
  from Cons.IH [OF t] have l: "length ys' = length xs"
    and n: "\<forall>k < length xs. f (xs ! k) = Inr (ys' ! k)" by simp_all
  show ?case
  proof (intro conjI allI impI)
    show "length ys = length (x # xs)" using l ys by simp
  next
    fix k assume "k < length (x # xs)"
    then show "f ((x # xs) ! k) = Inr (ys ! k)"
      using fx n ys by (cases k) simp_all
  qed
qed

lemma reconstruct_prefix:
  assumes "length ps1 = length ps2"
    and "\<forall>k < min (length surfaces) (length ps1).
           take (length (surfaces ! k)) (ps1 ! k) = take (length (surfaces ! k)) (ps2 ! k)"
  shows "reconstruct rebuild surfaces ps1 = reconstruct rebuild surfaces ps2"
proof -
  let ?f = "\<lambda>ps k. rebuild (surfaces ! k) (take (length (surfaces ! k)) (ps ! k))"
  let ?n = "min (length surfaces) (length ps1)"
  have z: "\<And>ps. length ps = length ps1 \<Longrightarrow>
      reconstruct rebuild surfaces ps = traverse (?f ps) [0..<?n]"
  proof -
    fix ps :: "string list list" assume l: "length ps = length ps1"
    have "zip surfaces ps = map (\<lambda>k. (surfaces ! k, ps ! k)) [0..<?n]"
      using l by (intro nth_equalityI) simp_all
    then have "reconstruct rebuild surfaces ps
        = traverse (\<lambda>(surface, prediction). rebuild surface (take (length surface) prediction))
            (map (\<lambda>k. (surfaces ! k, ps ! k)) [0..<?n])"
      by (simp add: reconstruct_def)
    also have "\<dots> = traverse (?f ps) [0..<?n]"
      by (simp add: traverse_map)
    finally show "reconstruct rebuild surfaces ps = traverse (?f ps) [0..<?n]" .
  qed
  have "traverse (?f ps1) [0..<?n] = traverse (?f ps2) [0..<?n]"
    using assms(2) by (intro traverse_cong) simp
  with z [of ps1] z [of ps2] assms(1)
  show ?thesis by simp
qed

lemma argmax_softmax: "exact_argmax (exact_softmax xs) = exact_argmax xs"
proof (cases "exact_topk 1 xs")
  case (Inl e)
  then show ?thesis by (simp add: exact_argmax_def topk_softmax)
next
  case (Inr best)
  from topk_one [OF Inr] obtain b where "best = [b]" by blast
  with Inr show ?thesis by (simp add: exact_argmax_def topk_softmax)
qed

text \<open>
  Claim C8. For each surface word, \<^verbatim>\<open>TransformerRNN.predict\<close> hands
  \<^verbatim>\<open>inverse_transformation\<close> the first \<open>len(surface)\<close> predicted labels only.
  Each returned lemma is \<^verbatim>\<open>inverse_transformation\<close> of the surface word and its
  first \<open>len(surface)\<close> labels, and two runs whose predicted labels agree on these
  positions return the same lemmas.
\<close>

theorem reconstruct_reads_prefix:
  "(reconstruct rebuild surfaces ps1 = Inr lemmas
      \<longrightarrow> length lemmas = min (length surfaces) (length ps1)
          \<and> (\<forall>k < length lemmas.
                rebuild (surfaces ! k) (take (length (surfaces ! k)) (ps1 ! k)) = Inr (lemmas ! k)))
   \<and> (predicted_labels t1 we1 cv1 x1 = Inr (scores1, ps1)
        \<and> predicted_labels t2 we2 cv2 x2 = Inr (scores2, ps2)
        \<and> length ps1 = length ps2
        \<and> (\<forall>k < min (length surfaces) (length ps1).
              take (length (surfaces ! k)) (ps1 ! k) = take (length (surfaces ! k)) (ps2 ! k))
      \<longrightarrow> reconstruct rebuild surfaces ps1 = reconstruct rebuild surfaces ps2
          \<and> map_sum id snd (transformer_predict t1 rebuild we1 cv1 x1 surfaces)
              = reconstruct rebuild surfaces ps1
          \<and> map_sum id snd (transformer_predict t2 rebuild we2 cv2 x2 surfaces)
              = reconstruct rebuild surfaces ps1)"
proof (intro conjI impI)
  assume r: "reconstruct rebuild surfaces ps1 = Inr lemmas"
  let ?g = "\<lambda>(surface, prediction). rebuild surface (take (length surface) prediction)"
  from r have t: "traverse ?g (zip surfaces ps1) = Inr lemmas" by (simp add: reconstruct_def)
  from traverse_Inr_nth [OF t]
  have l: "length lemmas = length (zip surfaces ps1)"
    and n: "\<forall>k < length (zip surfaces ps1). ?g (zip surfaces ps1 ! k) = Inr (lemmas ! k)"
    by simp_all
  show "length lemmas = min (length surfaces) (length ps1)" using l by simp
  show "\<forall>k < length lemmas.
          rebuild (surfaces ! k) (take (length (surfaces ! k)) (ps1 ! k)) = Inr (lemmas ! k)"
    using l n by auto
next
  assume a: "predicted_labels t1 we1 cv1 x1 = Inr (scores1, ps1)
        \<and> predicted_labels t2 we2 cv2 x2 = Inr (scores2, ps2)
        \<and> length ps1 = length ps2
        \<and> (\<forall>k < min (length surfaces) (length ps1).
              take (length (surfaces ! k)) (ps1 ! k) = take (length (surfaces ! k)) (ps2 ! k))"
  then show e: "reconstruct rebuild surfaces ps1 = reconstruct rebuild surfaces ps2"
    by (intro reconstruct_prefix) simp_all
  from a show "map_sum id snd (transformer_predict t1 rebuild we1 cv1 x1 surfaces)
      = reconstruct rebuild surfaces ps1"
    by (simp add: transformer_predict_def split: sum.splits)
  from a e show "map_sum id snd (transformer_predict t2 rebuild we2 cv2 x2 surfaces)
      = reconstruct rebuild surfaces ps1"
    by (simp add: transformer_predict_def split: sum.splits)
qed

lemma argmax_keep: "exact_argmax [1, 0] = Inr 0"
  by (simp add: exact_argmax_def exact_topk_def)

lemma argmax_delete: "exact_argmax [0, 1] = Inr 1"
  by (simp add: exact_argmax_def exact_topk_def)

lemma toy_predicted_labels:
  "predicted_labels (toy_transformer [[[1, 0], [1, 0], [1, 0], [0, 1], [0, 1]]]) () () ()
     = Inr (map (map exact_softmax) [[[1, 0], [1, 0], [1, 0], [0, 1], [0, 1]]],
            [[''keep'', ''keep'', ''keep'', ''delete'', ''delete'']])"
  "predicted_labels (toy_transformer [[[1, 0], [1, 0], [1, 0], [0, 1], [1, 0]]]) () () ()
     = Inr (map (map exact_softmax) [[[1, 0], [1, 0], [1, 0], [0, 1], [1, 0]]],
            [[''keep'', ''keep'', ''keep'', ''delete'', ''keep'']])"
  by (simp_all add: predicted_labels_def toy_transformer_def argmax_softmax argmax_keep
      argmax_delete)

theorem reconstruct_reads_prefix_witness:
  "reconstruct keep_delete [''cats''] [[''keep'', ''keep'', ''keep'', ''delete'', ''delete'']]
     = Inr [''cat'']
   \<and> keep_delete ''cats'' (take (length ''cats'') [''keep'', ''keep'', ''keep'', ''delete'', ''delete''])
     = Inr ''cat''
   \<and> map_sum id snd
        (transformer_predict (toy_transformer [[[1, 0], [1, 0], [1, 0], [0, 1], [0, 1]]])
           keep_delete () () () [''cats''])
     = Inr [''cat'']
   \<and> map_sum id snd
        (transformer_predict (toy_transformer [[[1, 0], [1, 0], [1, 0], [0, 1], [1, 0]]])
           keep_delete () () () [''cats''])
     = Inr [''cat'']"
proof -
  let ?p1 = "[[''keep'', ''keep'', ''keep'', ''delete'', ''delete'']]"
  let ?p2 = "[[''keep'', ''keep'', ''keep'', ''delete'', ''keep'']]"
  have r: "reconstruct keep_delete [''cats''] ?p1 = Inr [''cat'']"
    by (simp add: reconstruct_def)
  have h: "length ?p1 = length ?p2
      \<and> (\<forall>k < min (length [''cats'']) (length ?p1).
            take (length ([''cats''] ! k)) (?p1 ! k) = take (length ([''cats''] ! k)) (?p2 ! k))"
    by simp
  from reconstruct_reads_prefix
    [of keep_delete "[''cats'']" ?p1 "[''cat'']"
        "toy_transformer [[[1, 0], [1, 0], [1, 0], [0, 1], [0, 1]]]" "()" "()" "()"
        "map (map exact_softmax) [[[1, 0], [1, 0], [1, 0], [0, 1], [0, 1]]]"
        "toy_transformer [[[1, 0], [1, 0], [1, 0], [0, 1], [1, 0]]]" "()" "()" "()"
        "map (map exact_softmax) [[[1, 0], [1, 0], [1, 0], [0, 1], [1, 0]]]" ?p2]
    r h toy_predicted_labels
  show ?thesis by simp
qed

section \<open>The context vectors of \<^verbatim>\<open>EncoderRNN.forward\<close>\<close>

lemma subword_indices_bound: "i \<in> set (subword_indices word_ids k) \<Longrightarrow> i < length word_ids"
  by (simp add: subword_indices_def)

lemma subword_indices_empty: "(subword_indices word_ids k = []) = (Some k \<notin> set word_ids)"
  by (auto simp: subword_indices_def filter_empty_conv in_set_conv_nth)

lemma xlmr_loop_eq:
  assumes "length word_ids \<le> length last_hidden"
  shows "xlmr_loop mn word_ids last_hidden ks acc =
     Inr (acc @ map (\<lambda>k. mn (map (\<lambda>i. last_hidden ! i) (subword_indices word_ids k)))
                  (filter (\<lambda>k. Some k \<in> set word_ids) ks))"
proof (induction ks arbitrary: acc)
  case Nil
  show ?case by simp
next
  case (Cons k ks)
  have "list_all (\<lambda>i. i < length last_hidden) (subword_indices word_ids k)"
    using assms by (auto simp: list_all_iff dest: subword_indices_bound)
  then show ?case
    by (simp add: Let_def Cons.IH subword_indices_empty)
qed

lemma forward_eq:
  assumes "xlmr enc sentence_text = (word_ids, last_hidden)"
    and "length word_ids \<le> length last_hidden"
  shows "forward enc x sentence_text =
     (let aligned = filter (\<lambda>k. Some k \<in> set word_ids) [0..<length sentence_text] in
      if aligned = [] then Inl RuntimeError
      else Inr (map (char_gru enc) x,
                map (\<lambda>k. context_proj enc
                            (vec_mean enc (map (\<lambda>i. last_hidden ! i) (subword_indices word_ids k))))
                  aligned))"
  by (simp add: forward_def Let_def assms xlmr_loop_eq [OF assms(2)] comp_def)

text \<open>
  Claim C1, as the code has it. For a sentence that is not empty, in which every word has
  an aligned subword token, and with one row of \<open>x\<close> per word, \<^verbatim>\<open>forward\<close>
  returns exactly \<open>len(sentence_text)\<close> pairs of a word vector and a context vector, in
  the order of the words: the \<open>k\<close>-th pair holds the character GRU's vector of row \<open>k\<close>
  and the projected mean of the subword vectors aligned to word \<open>k\<close>, wherever the
  tokenizer placed them.
\<close>

theorem forward_one_vector_per_word:
  assumes "xlmr enc sentence_text = (word_ids, last_hidden)"
    and "length word_ids \<le> length last_hidden"
    and "sentence_text \<noteq> []"
    and "length x = length sentence_text"
    and "\<forall>k < length sentence_text. Some k \<in> set word_ids"
  shows "\<exists>word_embeddings context_embeddings.
           forward enc x sentence_text = Inr (word_embeddings, context_embeddings)
         \<and> length word_embeddings = length sentence_text
         \<and> length context_embeddings = length sentence_text
         \<and> length (zip word_embeddings context_embeddings) = length sentence_text
         \<and> (\<forall>k < length sentence_text.
               zip word_embeddings context_embeddings ! k =
                 (char_gru enc (x ! k),
                  context_proj enc
                    (vec_mean enc (map (\<lambda>i. last_hidden ! i) (subword_indices word_ids k)))))"
proof -
  let ?ctx = "map (\<lambda>k. context_proj enc
                       (vec_mean enc (map (\<lambda>i. last_hidden ! i) (subword_indices word_ids k))))
                [0..<length sentence_text]"
  have "filter (\<lambda>k. Some k \<in> set word_ids) [0..<length sentence_text] = [0..<length sentence_text]"
    using assms(5) by (simp add: filter_id_conv)
  then have f: "forward enc x sentence_text = Inr (map (char_gru enc) x, ?ctx)"
    using assms(3) by (simp add: forward_eq [OF assms(1,2)])
  have "length (map (char_gru enc) x) = length sentence_text" using assms(4) by simp
  moreover have "length ?ctx = length sentence_text" by simp
  moreover have "length (zip (map (char_gru enc) x) ?ctx) = length sentence_text"
    using assms(4) by simp
  moreover have "\<forall>k < length sentence_text.
      zip (map (char_gru enc) x) ?ctx ! k =
        (char_gru enc (x ! k),
         context_proj enc
           (vec_mean enc (map (\<lambda>i. last_hidden ! i) (subword_indices word_ids k))))"
    using assms(4) by simp
  ultimately show ?thesis using f by blast
qed

lemma toy_xlmr: "xlmr (toy_encoder word_ids) s = (word_ids, map real [0..<length word_ids])"
  by (simp add: toy_encoder_def)

theorem forward_one_vector_per_word_witness:
  "forward (toy_encoder [None, Some 0, Some 1, Some 1, None]) [[1, 2], [3, 4]] [''ab'', ''cd'']
     = Inr ([2, 2], [2, 5])
   \<and> zip [2, 2 :: real] [2, 5 :: real] = [(2, 2), (2, 5)]
   \<and> length (zip [2, 2 :: real] [2, 5 :: real]) = length [''ab'', ''cd'']"
proof -
  let ?w = "[None, Some 0, Some 1, Some 1, None]"
  have a: "\<forall>k < length [''ab'', ''cd'']. Some k \<in> set ?w"
    by (simp add: less_Suc_eq)
  have l: "length [[1, 2], [3, 4 :: nat]] = length [''ab'', ''cd'']" by simp
  have e: "forward (toy_encoder ?w) [[1, 2], [3, 4]] [''ab'', ''cd''] = Inr ([2, 2], [2, 5])"
    by (simp add: forward_def toy_encoder_def subword_indices_def)
  from forward_one_vector_per_word
    [of "toy_encoder ?w" "[''ab'', ''cd'']" ?w "map real [0..<length ?w]" "[[1, 2], [3, 4]]",
     OF toy_xlmr _ _ l a] e
  show ?thesis by simp
qed

text \<open>
  The claim as written holds for every sentence. With an alignment that covers the first
  word only, the second word is skipped: two word vectors and one context vector come
  back, which pair up to one pair for two words. And with a single row in \<open>x\<close>, one
  word vector comes back for two words.
\<close>

theorem forward_one_vector_per_word_counterexample:
  "forward (toy_encoder [None, Some 0, Some 0, None]) [[1, 2], [3, 4]] [''ab'', ''cd'']
     = Inr ([2, 2], [3])
   \<and> length (zip [2, 2 :: real] [3 :: real]) \<noteq> length [''ab'', ''cd'']
   \<and> forward (toy_encoder [None, Some 0, Some 1, Some 1, None]) [[1, 2]] [''ab'', ''cd'']
     = Inr ([2], [2, 5])
   \<and> length (zip [2 :: real] [2, 5 :: real]) \<noteq> length [''ab'', ''cd'']"
  by (simp add: forward_def toy_encoder_def subword_indices_def)

section \<open>Words without aligned subword tokens\<close>

text \<open>
  Claim C7, as the code has it. A word without aligned subword tokens gets no context
  vector, neither zero nor garbage: it is left out, and the vectors of the aligned words
  come back in order. \<^verbatim>\<open>forward\<close> raises only when no word of the sentence is
  aligned, from \<^verbatim>\<open>torch.stack\<close> on the empty list.
\<close>

theorem forward_skips_unaligned_words:
  assumes "xlmr enc sentence_text = (word_ids, last_hidden)"
    and "length word_ids \<le> length last_hidden"
  shows "forward enc x sentence_text =
     (if list_all (\<lambda>k. Some k \<notin> set word_ids) [0..<length sentence_text]
      then Inl RuntimeError
      else Inr (map (char_gru enc) x,
                map (\<lambda>k. context_proj enc
                            (vec_mean enc (map (\<lambda>i. last_hidden ! i) (subword_indices word_ids k))))
                  (filter (\<lambda>k. Some k \<in> set word_ids) [0..<length sentence_text])))"
  by (simp add: forward_eq [OF assms] Let_def filter_empty_conv list_all_iff)

theorem forward_skips_unaligned_words_witness:
  "forward (toy_encoder [None, Some 1, None]) [[1, 2], [3, 4]] [''ab'', ''cd''] = Inr ([2, 2], [2])
   \<and> forward (toy_encoder [None, None]) [[1, 2], [3, 4]] [''ab'', ''cd''] = Inl RuntimeError"
proof -
  have "length [None, Some 1, None] \<le> length (map real [0..<length [None, Some (1::nat), None]])"
    by simp
  from forward_skips_unaligned_words [OF toy_xlmr this, of "[[1, 2], [3, 4]]" "[''ab'', ''cd'']"]
  have 1: "forward (toy_encoder [None, Some 1, None]) [[1, 2], [3, 4]] [''ab'', ''cd'']
      = Inr ([2, 2], [2])"
    by (simp add: toy_encoder_def subword_indices_def)
  have "length [None, None] \<le> length (map real [0..<length [None :: nat option, None]])"
    by simp
  from forward_skips_unaligned_words [OF toy_xlmr this, of "[[1, 2], [3, 4]]" "[''ab'', ''cd'']"]
  have 2: "forward (toy_encoder [None, None]) [[1, 2], [3, 4]] [''ab'', ''cd''] = Inl RuntimeError"
    by (simp add:)
  from 1 2 show ?thesis by simp
qed

text \<open>
  The claim as written asks for an error as soon as one word is unaligned. Here the first
  word is unaligned: no error is raised, and the only context vector is that of the
  second word.
\<close>

theorem forward_skips_unaligned_words_counterexample:
  "subword_indices [None, Some 1, Some 1, None] 0 = []
   \<and> forward (toy_encoder [None, Some 1, Some 1, None]) [[1, 2], [3, 4]] [''ab'', ''cd'']
     = Inr ([2, 2], [3])"
  by (simp add: forward_def toy_encoder_def subword_indices_def)

section \<open>Greedy decoding\<close>

lemma filter_real_tokens:
  "filter (\<lambda>i. i \<noteq> 2 \<and> i \<noteq> 1 \<and> i \<noteq> 0) xs = filter (\<lambda>i. 2 < i) (xs :: nat list)"
  by (rule filter_cong) auto

lemma predict_loop_trace:
  assumes "predict_loop d n tok h rows ps = Inr (rows', ps')"
  shows "ps' = ps @ map (\<lambda>i. the (index2token d i))
                     (filter (\<lambda>i. 2 < i) (takeWhile (\<lambda>i. i \<noteq> 1) (argmax_tokens d n tok h)))
       \<and> length rows' = length rows
            + min n (Suc (length (takeWhile (\<lambda>i. i \<noteq> 1) (argmax_tokens d n tok h))))
       \<and> list_all (\<lambda>i. index2token d i \<noteq> None)
            (filter (\<lambda>i. 2 < i) (takeWhile (\<lambda>i. i \<noteq> 1) (argmax_tokens d n tok h)))"
  using assms
proof (induction n arbitrary: tok h rows ps)
  case 0
  then show ?case by simp
next
  case (Suc n)
  obtain out h' where g: "gru_step d tok h = (out, h')" by (cases "gru_step d tok h")
  from Suc.prems g obtain best where t: "topk d 1 out = Inr best"
    by (cases "topk d 1 out") simp_all
  let ?tok = "fst (hd best)"
  have tr: "argmax_tokens d (Suc n) tok h = ?tok # argmax_tokens d n ?tok h'"
    using g t by simp
  show ?case
  proof (cases "?tok = 1")
    case True
    with Suc.prems g t have "rows' = rows @ [out]" "ps' = ps" by (simp_all add: Let_def)
    with True tr show ?thesis by simp
  next
    case False
    show ?thesis
    proof (cases "2 < ?tok")
      case True
      with Suc.prems g t False obtain tk where
        i: "index2token d ?tok = Some tk"
        and r: "predict_loop d n ?tok h' (rows @ [out]) (ps @ [tk]) = Inr (rows', ps')"
        by (auto simp: Let_def split: option.splits)
      from Suc.IH [OF r] True False tr i show ?thesis by simp
    next
      case nr: False
      with Suc.prems g t False
      have r: "predict_loop d n ?tok h' (rows @ [out]) ps = Inr (rows', ps')"
        by (simp add: Let_def)
      from Suc.IH [OF r] nr False tr show ?thesis by simp
    qed
  qed
qed

lemma predict_loop_runs:
  assumes "predict_loop d n tok h rows ps = Inr (rows', ps')"
  shows "1 \<in> set (argmax_tokens d n tok h) \<or> length (argmax_tokens d n tok h) = n"
  using assms
proof (induction n arbitrary: tok h rows ps)
  case 0
  then show ?case by simp
next
  case (Suc n)
  obtain out h' where g: "gru_step d tok h = (out, h')" by (cases "gru_step d tok h")
  from Suc.prems g obtain best where t: "topk d 1 out = Inr best"
    by (cases "topk d 1 out") simp_all
  let ?tok = "fst (hd best)"
  have tr: "argmax_tokens d (Suc n) tok h = ?tok # argmax_tokens d n ?tok h'"
    using g t by simp
  show ?case
  proof (cases "?tok = 1")
    case True
    with tr show ?thesis by simp
  next
    case False
    with Suc.prems g t obtain rows1 ps1 where
      "predict_loop d n ?tok h' rows1 ps1 = Inr (rows', ps')"
      by (auto simp: Let_def split: option.splits if_splits)
    from Suc.IH [OF this] tr show ?thesis by auto
  qed
qed

lemma predict_loop_rows:
  assumes "predict_loop d n tok h rows ps = Inr (rows', ps')"
  shows "\<exists>new. rows' = rows @ new"
  using assms
proof (induction n arbitrary: tok h rows ps)
  case 0
  then show ?case by simp
next
  case (Suc n)
  obtain out h' where g: "gru_step d tok h = (out, h')" by (cases "gru_step d tok h")
  from Suc.prems g obtain best where t: "topk d 1 out = Inr best"
    by (cases "topk d 1 out") simp_all
  let ?tok = "fst (hd best)"
  show ?case
  proof (cases "?tok = 1")
    case True
    with Suc.prems g t show ?thesis by (auto simp: Let_def)
  next
    case False
    with Suc.prems g t obtain ps1 where
      "predict_loop d n ?tok h' (rows @ [out]) ps1 = Inr (rows', ps')"
      by (auto simp: Let_def split: option.splits if_splits)
    from Suc.IH [OF this] show ?thesis by auto
  qed
qed

lemma predict_loop_returns:
  assumes "1 \<in> set (argmax_tokens d n tok h) \<or> length (argmax_tokens d n tok h) = n"
    and "list_all (\<lambda>i. index2token d i \<noteq> None)
           (filter (\<lambda>i. 2 < i) (takeWhile (\<lambda>i. i \<noteq> 1) (argmax_tokens d n tok h)))"
  shows "\<exists>rows'. predict_loop d n tok h rows ps =
           Inr (rows', ps @ map (\<lambda>i. the (index2token d i))
                              (filter (\<lambda>i. 2 < i)
                                 (takeWhile (\<lambda>i. i \<noteq> 1) (argmax_tokens d n tok h))))"
  using assms
proof (induction n arbitrary: tok h rows ps)
  case 0
  show ?case by simp
next
  case (Suc n)
  obtain out h' where g: "gru_step d tok h = (out, h')" by (cases "gru_step d tok h")
  show ?case
  proof (cases "topk d 1 out")
    case (Inl e)
    with g have e: "argmax_tokens d (Suc n) tok h = []" by simp
    from Suc.prems(1) [unfolded e] show ?thesis by simp
  next
    case (Inr best)
    let ?tok = "fst (hd best)"
    let ?rest = "argmax_tokens d n ?tok h'"
    have tr: "argmax_tokens d (Suc n) tok h = ?tok # ?rest"
      using g Inr by simp
    show ?thesis
    proof (cases "?tok = 1")
      case True
      with g Inr tr show ?thesis by (simp add: Let_def)
    next
      case False
      from Suc.prems(1) [unfolded tr] False
      have a1: "1 \<in> set ?rest \<or> length ?rest = n" by auto
      show ?thesis
      proof (cases "2 < ?tok")
        case True
        from Suc.prems(2) [unfolded tr] False True obtain tk where
          i: "index2token d ?tok = Some tk"
          and a2: "list_all (\<lambda>i. index2token d i \<noteq> None)
                     (filter (\<lambda>i. 2 < i) (takeWhile (\<lambda>i. i \<noteq> 1) ?rest))"
          by auto
        from Suc.IH [OF a1 a2, of "rows @ [out]" "ps @ [tk]"] obtain rows' where
          "predict_loop d n ?tok h' (rows @ [out]) (ps @ [tk]) =
             Inr (rows', (ps @ [tk]) @ map (\<lambda>i. the (index2token d i))
                    (filter (\<lambda>i. 2 < i) (takeWhile (\<lambda>i. i \<noteq> 1) ?rest)))"
          by blast
        with g Inr False True i tr show ?thesis by (simp add: Let_def)
      next
        case nr: False
        from Suc.prems(2) [unfolded tr] False nr
        have a2: "list_all (\<lambda>i. index2token d i \<noteq> None)
                    (filter (\<lambda>i. 2 < i) (takeWhile (\<lambda>i. i \<noteq> 1) ?rest))"
          by simp
        from Suc.IH [OF a1 a2, of "rows @ [out]" ps] obtain rows' where
          "predict_loop d n ?tok h' (rows @ [out]) ps =
             Inr (rows', ps @ map (\<lambda>i. the (index2token d i))
                    (filter (\<lambda>i. 2 < i) (takeWhile (\<lambda>i. i \<noteq> 1) ?rest)))"
          by blast
        with g Inr False nr tr show ?thesis by (simp add: Let_def)
      qed
    qed
  qed
qed

text \<open>
  Claim C5. \<^verbatim>\<open>DecoderRNN.predict\<close> is the specification's greedy decoding: it
  starts from token 2, follows the arg-max tokens, and stops at the first
  end-of-sequence or after \<open>max_len\<close> steps. Whenever that decoding runs to its end,
  \<^verbatim>\<open>predict\<close> returns its tokens, after its number of steps, and otherwise
  \<^verbatim>\<open>predict\<close> raises. Every returned token is the vocabulary entry of an index
  above 2, so none is pad, end or start. When the first arg-max token is end-of-sequence
  the prediction is empty and one step has run.
\<close>

theorem predict_is_greedy_decode:
  "(0 \<le> max_len \<and> greedy_returns d we cv (nat max_len)
      \<longrightarrow> (\<exists>rows. predict_loop d (nat max_len) 2 (init_hidden d we cv) [] []
                      = Inr (rows, greedy_decode d we cv (nat max_len))
                  \<and> length rows = greedy_steps d we cv (nat max_len)
                  \<and> predict d we cv max_len
                      = Inr (rows @ replicate (nat max_len - length rows)
                                      (replicate (vocab_size d) 0),
                             greedy_decode d we cv (nat max_len))))
   \<and> (predict_loop d (nat max_len) 2 (init_hidden d we cv) [] [] = Inr (rows, predictions)
      \<longrightarrow> length rows = greedy_steps d we cv (nat max_len))
   \<and> (predict d we cv max_len = Inr (scores, predictions)
      \<longrightarrow> greedy_returns d we cv (nat max_len)
          \<and> predictions = greedy_decode d we cv (nat max_len)
          \<and> list_all (\<lambda>t. \<exists>i. 2 < i \<and> index2token d i = Some t) predictions)
   \<and> (0 < max_len \<and> gru_step d 2 (init_hidden d we cv) = (out, h')
        \<and> topk d 1 out = Inr [(1, v)]
      \<longrightarrow> predict_loop d (nat max_len) 2 (init_hidden d we cv) [] [] = Inr ([out], [])
          \<and> predict d we cv max_len
              = Inr (out # replicate (nat max_len - 1) (replicate (vocab_size d) 0), []))"
proof (intro conjI impI)
  assume a: "0 \<le> max_len \<and> greedy_returns d we cv (nat max_len)"
  let ?h = "init_hidden d we cv"
  from a have "1 \<in> set (argmax_tokens d (nat max_len) 2 ?h)
      \<or> length (argmax_tokens d (nat max_len) 2 ?h) = nat max_len"
    and "list_all (\<lambda>i. index2token d i \<noteq> None)
           (filter (\<lambda>i. 2 < i) (takeWhile (\<lambda>i. i \<noteq> 1) (argmax_tokens d (nat max_len) 2 ?h)))"
    by (simp_all add: greedy_returns_def Let_def)
  from predict_loop_returns [OF this, of "[]" "[]"] obtain rows where
    l: "predict_loop d (nat max_len) 2 ?h [] [] = Inr (rows, greedy_decode d we cv (nat max_len))"
    unfolding greedy_decode_def filter_real_tokens by auto
  from predict_loop_trace [OF l]
  have n: "length rows = greedy_steps d we cv (nat max_len)"
    by (simp add: greedy_steps_def)
  from a l have "predict d we cv max_len
      = Inr (rows @ replicate (nat max_len - length rows) (replicate (vocab_size d) 0),
             greedy_decode d we cv (nat max_len))"
    by (simp add: predict_def)
  with l n show "\<exists>rows. predict_loop d (nat max_len) 2 ?h [] []
                      = Inr (rows, greedy_decode d we cv (nat max_len))
                  \<and> length rows = greedy_steps d we cv (nat max_len)
                  \<and> predict d we cv max_len
                      = Inr (rows @ replicate (nat max_len - length rows)
                                      (replicate (vocab_size d) 0),
                             greedy_decode d we cv (nat max_len))"
    by blast
next
  assume "predict_loop d (nat max_len) 2 (init_hidden d we cv) [] [] = Inr (rows, predictions)"
  from predict_loop_trace [OF this]
  show "length rows = greedy_steps d we cv (nat max_len)"
    by (simp add: greedy_steps_def)
next
  assume p: "predict d we cv max_len = Inr (scores, predictions)"
  then obtain rows where
    l: "predict_loop d (nat max_len) 2 (init_hidden d we cv) [] [] = Inr (rows, predictions)"
    by (auto simp: predict_def split: if_splits sum.splits)
  note tr = predict_loop_trace [OF l]
  from tr predict_loop_runs [OF l] show "greedy_returns d we cv (nat max_len)"
    by (simp add: greedy_returns_def Let_def)
  from tr show "predictions = greedy_decode d we cv (nat max_len)"
    unfolding greedy_decode_def filter_real_tokens by simp
  from tr show "list_all (\<lambda>t. \<exists>i. 2 < i \<and> index2token d i = Some t) predictions"
    by (auto simp: list_all_iff)
next
  assume a: "0 < max_len \<and> gru_step d 2 (init_hidden d we cv) = (out, h')
        \<and> topk d 1 out = Inr [(1, v)]"
  then obtain n where n: "nat max_len = Suc n" by (cases "nat max_len") auto
  with a show l: "predict_loop d (nat max_len) 2 (init_hidden d we cv) [] [] = Inr ([out], [])"
    by simp
  from a l n show "predict d we cv max_len
      = Inr (out # replicate (nat max_len - 1) (replicate (vocab_size d) 0), [])"
    by (simp add: predict_def)
qed

lemma toy_predict_loop:
  "predict_loop (toy_decoder 2 ''a'') (nat 5) 2 (init_hidden (toy_decoder 2 ''a'') () ()) [] []
     = Inr ([[0, 0, 0, 1], [0, 0, 0, 1], [0, 1, 0, 0]], [''a'', ''a''])"
  by (simp add: toy_decoder_def toy_vocab_def predict_loop_unfold topk_prefers_token
      topk_prefers_eos)

lemma eos_predict_first:
  "gru_step (toy_decoder 0 ''a'') 2 (init_hidden (toy_decoder 0 ''a'') () ()) = ([0, 1, 0, 0], 1)"
  by (simp add: toy_decoder_def)

lemma looping_argmax_tokens:
  "argmax_tokens (looping_decoder ''a'') (nat 3) 2 (init_hidden (looping_decoder ''a'') () ())
     = [3, 3, 3]"
  by (simp add: eval_nat_numeral looping_decoder_def topk_prefers_token)

lemma looping_greedy_returns: "greedy_returns (looping_decoder ''a'') () () (nat 3)"
  unfolding greedy_returns_def looping_argmax_tokens
  by (simp add: looping_decoder_def toy_vocab_def)

theorem predict_is_greedy_decode_witness:
  "predict (toy_decoder 2 ''a'') () () 5
     = Inr ([[0, 0, 0, 1], [0, 0, 0, 1], [0, 1, 0, 0], [0, 0, 0, 0], [0, 0, 0, 0]], [''a'', ''a''])
   \<and> greedy_decode (toy_decoder 2 ''a'') () () (nat 5) = [''a'', ''a'']
   \<and> greedy_steps (toy_decoder 2 ''a'') () () (nat 5) = 3
   \<and> predict (toy_decoder 0 ''a'') () () 5
     = Inr ([[0, 1, 0, 0], [0, 0, 0, 0], [0, 0, 0, 0], [0, 0, 0, 0], [0, 0, 0, 0]], [])
   \<and> greedy_returns (looping_decoder ''a'') () () (nat 3)
   \<and> greedy_decode (looping_decoder ''a'') () () (nat 3) = [''a'', ''a'', ''a'']
   \<and> greedy_steps (looping_decoder ''a'') () () (nat 3) = 3
   \<and> predict (looping_decoder ''a'') () () 3
     = Inr ([[0, 0, 0, 1], [0, 0, 0, 1], [0, 0, 0, 1]], [''a'', ''a'', ''a''])"
proof -
  have p: "predict (toy_decoder 2 ''a'') () () 5
     = Inr ([[0, 0, 0, 1], [0, 0, 0, 1], [0, 1, 0, 0], [0, 0, 0, 0], [0, 0, 0, 0]], [''a'', ''a''])"
    using toy_predict_loop by (simp add: predict_def toy_decoder_def eval_nat_numeral)
  have e: "(0::int) < 5 \<and> gru_step (toy_decoder 0 ''a'') 2 (init_hidden (toy_decoder 0 ''a'') () ())
             = ([0, 1, 0, 0], 1)
           \<and> topk (toy_decoder 0 ''a'') 1 [0, 1, 0, 0] = Inr [(1, 1)]"
    using eos_predict_first topk_prefers_eos by (simp add: toy_decoder_def)
  note T = predict_is_greedy_decode
    [where d = "toy_decoder 2 ''a''" and max_len = 5 and we = "()" and cv = "()"
       and rows = "[[0, 0, 0, 1], [0, 0, 0, 1], [0, 1, 0, 0]]" and predictions = "[''a'', ''a'']"
       and scores = "[[0, 0, 0, 1], [0, 0, 0, 1], [0, 1, 0, 0], [0, 0, 0, 0], [0, 0, 0, 0]]"]
  from T toy_predict_loop
  have "length [[0, 0, 0, 1], [0, 0, 0, 1], [0, 1, 0, 0 :: real]]
      = greedy_steps (toy_decoder 2 ''a'') () () (nat 5)"
    by blast
  moreover from T p have "[''a'', ''a''] = greedy_decode (toy_decoder 2 ''a'') () () (nat 5)"
    by blast
  ultimately have 1: "greedy_decode (toy_decoder 2 ''a'') () () (nat 5) = [''a'', ''a'']
         \<and> greedy_steps (toy_decoder 2 ''a'') () () (nat 5) = 3"
    by simp
  from predict_is_greedy_decode
    [where d = "toy_decoder 0 ''a''" and max_len = 5 and we = "()" and cv = "()"
       and out = "[0, 1, 0, 0]" and h' = 1 and v = 1] e
  have 2: "predict (toy_decoder 0 ''a'') () () 5
     = Inr ([[0, 1, 0, 0], [0, 0, 0, 0], [0, 0, 0, 0], [0, 0, 0, 0], [0, 0, 0, 0]], [])"
    by (simp add: toy_decoder_def eval_nat_numeral)
  have d3: "greedy_decode (looping_decoder ''a'') () () (nat 3) = [''a'', ''a'', ''a'']"
    unfolding greedy_decode_def looping_argmax_tokens
    by (simp add: looping_decoder_def toy_vocab_def)
  have s3: "greedy_steps (looping_decoder ''a'') () () (nat 3) = 3"
    unfolding greedy_steps_def looping_argmax_tokens by simp
  have h3: "(0::int) \<le> 3 \<and> greedy_returns (looping_decoder ''a'') () () (nat 3)"
    using looping_greedy_returns by simp
  from predict_is_greedy_decode
    [where d = "looping_decoder ''a''" and max_len = 3 and we = "()" and cv = "()"] h3
  obtain rows where
    r: "predict_loop (looping_decoder ''a'') (nat 3) 2 (init_hidden (looping_decoder ''a'') () ())
          [] [] = Inr (rows, greedy_decode (looping_decoder ''a'') () () (nat 3))"
    and n: "length rows = greedy_steps (looping_decoder ''a'') () () (nat 3)"
    and q: "predict (looping_decoder ''a'') () () 3
          = Inr (rows @ replicate (nat 3 - length rows)
                          (replicate (vocab_size (looping_decoder ''a'')) 0),
                 greedy_decode (looping_decoder ''a'') () () (nat 3))"
    by blast
  have "predict_loop (looping_decoder ''a'') (nat 3) 2 (init_hidden (looping_decoder ''a'') () ())
          [] [] = Inr ([[0, 0, 0, 1], [0, 0, 0, 1], [0, 0, 0, 1]], [''a'', ''a'', ''a''])"
    by (simp add: looping_decoder_def toy_vocab_def predict_loop_unfold topk_prefers_token)
  with r have "rows = [[0, 0, 0, 1], [0, 0, 0, 1], [0, 0, 0, 1]]" by simp
  with q d3 have 3: "predict (looping_decoder ''a'') () () 3
     = Inr ([[0, 0, 0, 1], [0, 0, 0, 1], [0, 0, 0, 1]], [''a'', ''a'', ''a''])"
    by simp
  from p 1 2 3 d3 s3 looping_greedy_returns show ?thesis by simp
qed

section \<open>Termination of the beam search\<close>

lemma beam_loop_generation:
  "beam_loop fuel d sl bs states cs =
     (case beam_generation fuel d sl bs states cs of
        Inl e \<Rightarrow> Some (Inl e)
      | Inr ([], cs') \<Rightarrow> Some (Inr cs')
      | Inr (s # ss, cs') \<Rightarrow> None)"
proof (induction fuel arbitrary: states cs)
  case 0
  show ?case by (cases states) simp_all
next
  case (Suc fuel)
  show ?case
  proof (cases states)
    case Nil
    have "beam_generation n d sl bs [] cs = Inr ([], cs)" for n
      by (induction n) (simp_all add: by_score_def)
    with Nil show ?thesis by simp
  next
    case (Cons s ss)
    then show ?thesis
      by (simp add: Suc.IH split: sum.splits prod.splits)
  qed
qed

lemma expand_candidates_new:
  assumes "expand_candidates d sl st h' cands cs ns = Inr (cs', ns')"
    and "list_all Q ns"
    and "\<And>ix p s. ix \<noteq> 1 \<Longrightarrow> new_state d sl st h' (ix, p) = Inr s \<Longrightarrow> Q s"
  shows "list_all Q ns'"
  using assms
proof (induction cands arbitrary: cs ns)
  case Nil
  then show ?case by simp
next
  case (Cons cand cands)
  obtain ix p where c: "cand = (ix, p)" by (cases cand)
  show ?case
  proof (cases "new_state d sl st h' cand")
    case (Inl e)
    with Cons.prems show ?thesis by simp
  next
    case (Inr s)
    show ?thesis
    proof (cases "ix = 1")
      case True
      with Cons.prems(1) Inr c
      have "expand_candidates d sl st h' cands (cs @ [s]) ns = Inr (cs', ns')" by simp
      then show ?thesis using Cons.IH Cons.prems(2,3) by blast
    next
      case False
      with Inr c Cons.prems(3) have "Q s" by simp
      with Cons.prems(2) have "list_all Q (ns @ [s])" by simp
      moreover from Cons.prems(1) Inr c False
      have "expand_candidates d sl st h' cands cs (ns @ [s]) = Inr (cs', ns')" by simp
      ultimately show ?thesis using Cons.IH Cons.prems(3) by blast
    qed
  qed
qed

text \<open>
  One generation: every new state extends an expanded state, which was below the bound.
\<close>

lemma expand_states_new:
  assumes "expand_states d sl bs states cs ns = Inr (cs', ns')"
    and "list_all Q ns"
    and "\<And>st h' ix p s. st \<in> set states \<Longrightarrow> int (length (prediction st)) < sl + 2 \<Longrightarrow>
           ix \<noteq> 1 \<Longrightarrow> new_state d sl st h' (ix, p) = Inr s \<Longrightarrow> Q s"
  shows "list_all Q ns'"
  using assms
proof (induction states arbitrary: cs ns)
  case Nil
  then show ?case by simp
next
  case (Cons st states)
  have step: "\<And>st' h' ix p s. st' \<in> set states \<Longrightarrow> int (length (prediction st')) < sl + 2 \<Longrightarrow>
           ix \<noteq> 1 \<Longrightarrow> new_state d sl st' h' (ix, p) = Inr s \<Longrightarrow> Q s"
    by (metis Cons.prems(3) list.set_intros(2))
  show ?case
  proof (cases "sl + 2 \<le> int (length (prediction st))")
    case True
    with Cons.prems(1) have "expand_states d sl bs states cs ns = Inr (cs', ns')" by simp
    then show ?thesis using Cons.prems(2) step by (rule Cons.IH)
  next
    case False
    obtain out h' where g: "gru_step d (last_output st) (hidden st) = (out, h')"
      by (cases "gru_step d (last_output st) (hidden st)")
    from Cons.prems(1) False g obtain cands cs1 ns1 where
      e: "expand_candidates d sl st h' cands cs ns = Inr (cs1, ns1)"
      and r: "expand_states d sl bs states cs1 ns1 = Inr (cs', ns')"
      by (auto split: sum.splits)
    have "\<And>ix p s. ix \<noteq> 1 \<Longrightarrow> new_state d sl st h' (ix, p) = Inr s \<Longrightarrow> Q s"
      using False by (intro Cons.prems(3) [of st]) simp_all
    with e Cons.prems(2) have "list_all Q ns1" by (rule expand_candidates_new)
    with r show ?thesis using step by (rule Cons.IH)
  qed
qed

lemma new_state_extends:
  assumes "new_state d sl st h' (ix, p) = Inr s" and "ix \<noteq> 1"
  shows "\<exists>t. index2token d ix = Some t \<and> prediction s = prediction st @ t"
  using assms by (auto simp: new_state_def Let_def split: option.splits)

lemma set_take_by_score: "set (take n (by_score xs)) \<subseteq> set xs"
  using set_take_subset [of n "by_score xs"] by (simp add: set_by_score)

lemma beam_loop_returns:
  assumes tokens: "\<forall>i t. index2token d i = Some t \<longrightarrow> t \<noteq> []"
    and "list_all (\<lambda>s. k \<le> length (prediction s)) states"
    and "sl + 2 < int k + int fuel" and "0 < fuel"
  shows "\<exists>r. beam_loop fuel d sl bs states cs = Some r"
  using assms(2-)
proof (induction fuel arbitrary: k states cs)
  case 0
  then show ?case by simp
next
  case (Suc fuel)
  show ?case
  proof (cases states)
    case Nil
    then show ?thesis by simp
  next
    case (Cons s ss)
    show ?thesis
    proof (cases "expand_states d sl bs states cs []")
      case (Inl e)
      with Cons show ?thesis by simp
    next
      case (Inr res)
      obtain cs' ns' where res: "res = (cs', ns')" by (cases res)
      let ?Q = "\<lambda>s. Suc k \<le> length (prediction s) \<and> int k < sl + 2"
      have "list_all ?Q ns'"
      proof (rule expand_states_new [where ns = "[]"])
        show "expand_states d sl bs states cs [] = Inr (cs', ns')" using Inr res by simp
        show "list_all ?Q []" by simp
      next
        fix st h' ix p s
        assume st: "st \<in> set states" and b: "int (length (prediction st)) < sl + 2"
          and ix: "ix \<noteq> 1" and n: "new_state d sl st h' (ix, p) = Inr s"
        from new_state_extends [OF n ix] obtain t where
          t: "index2token d ix = Some t" and ps: "prediction s = prediction st @ t" by blast
        from t tokens have "t \<noteq> []" by blast
        then have "1 \<le> length t" by (cases t) simp_all
        moreover from st Suc.prems(1) have "k \<le> length (prediction st)"
          by (simp add: list_all_iff)
        moreover have "length (prediction s) = length (prediction st) + length t"
          using ps by simp
        ultimately show "?Q s" using b by linarith
      qed
      then have q: "list_all ?Q (take (nat bs) (by_score ns'))"
        using set_take_by_score [of "nat bs" ns'] by (auto simp: list_all_iff)
      have l: "beam_loop (Suc fuel) d sl bs states cs
          = beam_loop fuel d sl bs (take (nat bs) (by_score ns')) cs'"
        using Cons Inr res by simp
      show ?thesis
      proof (cases "take (nat bs) (by_score ns')")
        case Nil
        with l show ?thesis by simp
      next
        case (Cons s' ss')
        with q have kb: "int k < sl + 2" by simp
        with Suc.prems(2) have "sl + 2 < int (Suc k) + int fuel" and "0 < fuel" by simp_all
        moreover from q have "list_all (\<lambda>s. Suc k \<le> length (prediction s)) (take (nat bs) (by_score ns'))"
          by (simp add: list_all_iff)
        ultimately have "\<exists>r. beam_loop fuel d sl bs (take (nat bs) (by_score ns')) cs' = Some r"
          using Suc.IH by blast
        with l show ?thesis by simp
      qed
    qed
  qed
qed

lemma beam_generation_lengths:
  assumes "beam_generation k d sl bs states cs = Inr (states', cs')"
    and "list_all (Q j) states"
    and step: "\<And>j st h' ix p s. Q j st \<Longrightarrow> ix \<noteq> 1 \<Longrightarrow> new_state d sl st h' (ix, p) = Inr s
                 \<Longrightarrow> Q (Suc j) s"
  shows "list_all (Q (j + k)) states'"
  using assms(1,2)
proof (induction k arbitrary: j states cs)
  case 0
  then show ?case by simp
next
  case (Suc k)
  from Suc.prems(1) obtain cs1 ns1 where
    e: "expand_states d sl bs states cs [] = Inr (cs1, ns1)"
    and r: "beam_generation k d sl bs (take (nat bs) (by_score ns1)) cs1 = Inr (states', cs')"
    by (auto split: sum.splits)
  have "list_all (Q (Suc j)) ns1"
  proof (rule expand_states_new [OF e])
    show "list_all (Q (Suc j)) []" by simp
  next
    fix st h' ix p s
    assume "st \<in> set states" and "ix \<noteq> 1" and "new_state d sl st h' (ix, p) = Inr s"
    with Suc.prems(2) show "Q (Suc j) s" using step by (auto simp: list_all_iff)
  qed
  then have "list_all (Q (Suc j)) (take (nat bs) (by_score ns1))"
    using set_take_by_score [of "nat bs" ns1] by (auto simp: list_all_iff)
  with r have "list_all (Q (Suc j + k)) states'" by (rule Suc.IH)
  then show ?case by simp
qed

text \<open>
  Claim C10, as the code has it. With a vocabulary whose tokens are all non-empty
  strings and \<open>surface_len \<ge> 0\<close>, \<^verbatim>\<open>predict_beam\<close> returns or raises within
  \<open>surface_len + 3\<close> iterations of its outer loop. Every active state of generation
  \<open>k\<close> has a prediction of length at least \<open>k\<close>, and of length exactly \<open>k\<close> when every
  token is a single character.
\<close>

theorem predict_beam_terminates:
  assumes "0 \<le> surface_len"
    and "\<forall>i t. index2token d i = Some t \<longrightarrow> t \<noteq> []"
  shows "(\<exists>r. predict_beam (nat (surface_len + 3)) d we cv surface_len beam_size max_len = Some r)
       \<and> (beam_generation k d surface_len beam_size [initial_state d we cv] [] = Inr (states, cs)
            \<longrightarrow> list_all (\<lambda>s. k \<le> length (prediction s)) states)
       \<and> ((\<forall>i t. index2token d i = Some t \<longrightarrow> length t = 1)
            \<and> beam_generation k d surface_len beam_size [initial_state d we cv] [] = Inr (states, cs)
            \<longrightarrow> list_all (\<lambda>s. length (prediction s) = k) states)"
proof (intro conjI impI)
  have "list_all (\<lambda>s. 0 \<le> length (prediction s)) [initial_state d we cv]" by simp
  moreover have "surface_len + 2 < int 0 + int (nat (surface_len + 3))"
    using assms(1) by simp
  moreover have "0 < nat (surface_len + 3)" using assms(1) by simp
  ultimately obtain r where
    "beam_loop (nat (surface_len + 3)) d surface_len beam_size [initial_state d we cv] [] = Some r"
    using beam_loop_returns [OF assms(2)] by blast
  then show "\<exists>r. predict_beam (nat (surface_len + 3)) d we cv surface_len beam_size max_len = Some r"
    by (simp add: predict_beam_def beam_completed_def split: sum.splits list.splits)
next
  assume g: "beam_generation k d surface_len beam_size [initial_state d we cv] [] = Inr (states, cs)"
  have "list_all (\<lambda>s. 0 + k \<le> length (prediction s)) states"
  proof (rule beam_generation_lengths [OF g, where Q = "\<lambda>j s. j \<le> length (prediction s)"])
    show "list_all (\<lambda>s. 0 \<le> length (prediction s)) [initial_state d we cv]" by simp
  next
    fix j st h' ix p s
    assume j: "j \<le> length (prediction st)" and ix: "ix \<noteq> 1"
      and n: "new_state d surface_len st h' (ix, p) = Inr s"
    from new_state_extends [OF n ix] obtain t where
      t: "index2token d ix = Some t" and ps: "prediction s = prediction st @ t" by blast
    from t assms(2) have "t \<noteq> []" by blast
    then have "1 \<le> length t" by (cases t) simp_all
    moreover have "length (prediction s) = length (prediction st) + length t"
      using ps by simp
    ultimately show "Suc j \<le> length (prediction s)" using j by linarith
  qed
  then show "list_all (\<lambda>s. k \<le> length (prediction s)) states" by simp
next
  assume a: "(\<forall>i t. index2token d i = Some t \<longrightarrow> length t = 1)
      \<and> beam_generation k d surface_len beam_size [initial_state d we cv] [] = Inr (states, cs)"
  then have g: "beam_generation k d surface_len beam_size [initial_state d we cv] [] = Inr (states, cs)"
    by simp
  have "list_all (\<lambda>s. length (prediction s) = 0 + k) states"
  proof (rule beam_generation_lengths [OF g, where Q = "\<lambda>j s. length (prediction s) = j"])
    show "list_all (\<lambda>s. length (prediction s) = 0) [initial_state d we cv]"
      by (simp add: initial_state_def)
  next
    fix j st h' ix p s
    assume j: "length (prediction st) = j" and ix: "ix \<noteq> 1"
      and n: "new_state d surface_len st h' (ix, p) = Inr s"
    from new_state_extends [OF n ix] obtain t where
      t: "index2token d ix = Some t" and ps: "prediction s = prediction st @ t" by blast
    from t a have "length t = 1" by blast
    with j ps show "length (prediction s) = Suc j" by simp
  qed
  then show "list_all (\<lambda>s. length (prediction s) = k) states" by simp
qed

lemma toy_vocab_tokens:
  "index2token (looping_decoder ''a'') i = Some t \<Longrightarrow> length t = 1"
  by (auto simp: looping_decoder_def toy_vocab_def split: if_splits)

lemma looping_generation:
  "\<exists>sc nsc. beam_generation 2 (looping_decoder ''a'') 0 1
       [initial_state (looping_decoder ''a'') () ()] []
     = Inr ([\<lparr>prediction = ''aa'', score = sc, normalized_score = nsc, last_output = 3,
              hidden = ()\<rparr>], [])"
  by (simp add: eval_nat_numeral initial_state_def looping_decoder_def toy_vocab_def
      topk_softmax topk_prefers_token new_state_def by_score_def)

theorem predict_beam_terminates_witness:
  "predict_beam (nat (0 + 3)) (looping_decoder ''a'') () () 0 1 50 = Some (Inl IndexError)
   \<and> (\<exists>states cs. beam_generation 2 (looping_decoder ''a'') 0 1
                     [initial_state (looping_decoder ''a'') () ()] [] = Inr (states, cs)
        \<and> map prediction states = [''aa'']
        \<and> list_all (\<lambda>s. 2 \<le> length (prediction s)) states
        \<and> list_all (\<lambda>s. length (prediction s) = 2) states)"
proof -
  have h1: "(0::int) \<le> 0" by simp
  have h2: "\<forall>i t. index2token (looping_decoder ''a'') i = Some t \<longrightarrow> t \<noteq> []"
    using toy_vocab_tokens by fastforce
  have h3: "\<forall>i t. index2token (looping_decoder ''a'') i = Some t \<longrightarrow> length t = 1"
    using toy_vocab_tokens by blast
  from looping_generation obtain sc nsc where
    g: "beam_generation 2 (looping_decoder ''a'') 0 1
          [initial_state (looping_decoder ''a'') () ()] []
        = Inr ([\<lparr>prediction = ''aa'', score = sc, normalized_score = nsc, last_output = 3,
                 hidden = ()\<rparr>], [])"
    by blast
  note T = predict_beam_terminates [OF h1 h2, of "()" "()" 1 50 2
      "[\<lparr>prediction = ''aa'', score = sc, normalized_score = nsc, last_output = 3, hidden = ()\<rparr>]"
      "[]"]
  have 1: "predict_beam (nat (0 + 3)) (looping_decoder ''a'') () () 0 1 50 = Some (Inl IndexError)"
    by (simp add: predict_beam_def beam_completed_def eval_nat_numeral initial_state_def
        looping_decoder_def toy_vocab_def topk_softmax topk_prefers_token new_state_def
        by_score_def)
  from T g h3 have
    "list_all (\<lambda>s. 2 \<le> length (prediction s))
       [\<lparr>prediction = ''aa'', score = sc, normalized_score = nsc, last_output = 3, hidden = ()\<rparr>]"
    "list_all (\<lambda>s. length (prediction s) = 2)
       [\<lparr>prediction = ''aa'', score = sc, normalized_score = nsc, last_output = 3, hidden = ()\<rparr>]"
    by blast+
  with 1 g show ?thesis by simp
qed

text \<open>
  The claim as written covers every vocabulary. With the empty string as token 3 and a
  decoder that always prefers it, the prediction never grows: for \<open>surface_len = 0\<close>
  the loop is still running after 3 iterations, and after 10. With the tag \<open>PL\<close> as
  token 3, the state of generation 1 has a prediction of length 2.
\<close>

theorem predict_beam_terminates_counterexample:
  "predict_beam (nat (0 + 3)) (looping_decoder []) () () 0 1 50 = None
   \<and> predict_beam 10 (looping_decoder []) () () 0 1 50 = None
   \<and> map_sum id (\<lambda>r. map prediction (fst r))
        (beam_generation 1 (looping_decoder ''PL'') 0 1
           [initial_state (looping_decoder ''PL'') () ()] [])
     = Inr [''PL'']
   \<and> length ''PL'' \<noteq> 1"
  by (simp add: predict_beam_def beam_completed_def eval_nat_numeral initial_state_def
      looping_decoder_def toy_vocab_def topk_softmax topk_prefers_token new_state_def
      by_score_def)

lemma looping_empty_token_step:
  "\<exists>sc' nsc'. expand_states (looping_decoder []) 0 1
       [\<lparr>prediction = [], score = sc, normalized_score = nsc, last_output = tok, hidden = ()\<rparr>]
       cs []
     = Inr (cs, [\<lparr>prediction = [], score = sc', normalized_score = nsc', last_output = 3,
                  hidden = ()\<rparr>])"
  by (simp add: looping_decoder_def toy_vocab_def topk_softmax topk_prefers_token new_state_def)

lemma looping_empty_token_runs_forever:
  "beam_loop fuel (looping_decoder []) 0 1
     [\<lparr>prediction = [], score = sc, normalized_score = nsc, last_output = tok, hidden = ()\<rparr>] cs
   = None"
proof (induction fuel arbitrary: sc nsc tok cs)
  case 0
  show ?case by simp
next
  case (Suc fuel)
  from looping_empty_token_step [of sc nsc tok cs] obtain sc' nsc' where
    "expand_states (looping_decoder []) 0 1
       [\<lparr>prediction = [], score = sc, normalized_score = nsc, last_output = tok, hidden = ()\<rparr>]
       cs []
     = Inr (cs, [\<lparr>prediction = [], score = sc', normalized_score = nsc', last_output = 3,
                  hidden = ()\<rparr>])"
    by blast
  then have "beam_loop (Suc fuel) (looping_decoder []) 0 1
       [\<lparr>prediction = [], score = sc, normalized_score = nsc, last_output = tok, hidden = ()\<rparr>] cs
     = beam_loop fuel (looping_decoder []) 0 1
       [\<lparr>prediction = [], score = sc', normalized_score = nsc', last_output = 3, hidden = ()\<rparr>] cs"
    by (simp add: by_score_def del: expand_states.simps)
  with Suc.IH show ?case by simp
qed

section \<open>Beam search of width one and greedy decoding\<close>

lemma softmax_keeps_topD:
  assumes "softmax_keeps_top d out" and "topk d 1 out = Inr best"
  shows "\<exists>q. topk d 1 (softmax d out) = Inr [(fst (hd best), q)]"
  using assms
  by (auto simp: softmax_keeps_top_def split: sum.splits list.splits prod.splits)

lemma beam_follows_greedy:
  assumes "predict_loop d n tok h rows ps = Inr (rows', ps')"
    and "1 \<in> set (argmax_tokens d n tok h)"
    and "list_all (\<lambda>i. 2 < i) (takeWhile (\<lambda>i. i \<noteq> 1) (argmax_tokens d n tok h))"
    and "list_all (softmax_keeps_top d) (drop (length rows) rows')"
    and "int (length (concat ps')) < sl + 2"
    and "prediction st = concat ps" and "last_output st = tok" and "hidden st = h"
    and "n \<le> fuel"
  shows "\<exists>s. beam_loop fuel d sl 1 [st] [] = Some (Inr [s]) \<and> prediction s = concat ps'"
  using assms
proof (induction n arbitrary: tok h rows ps st fuel)
  case 0
  then show ?case by simp
next
  case (Suc n)
  from Suc.prems(9) obtain f where fuel: "fuel = Suc f" and nf: "n \<le> f"
    by (cases fuel) auto
  obtain out h' where g: "gru_step d tok h = (out, h')" by (cases "gru_step d tok h")
  from Suc.prems(1) g obtain best where t: "topk d 1 out = Inr best"
    by (cases "topk d 1 out") simp_all
  let ?tok = "fst (hd best)"
  have tr: "argmax_tokens d (Suc n) tok h = ?tok # argmax_tokens d n ?tok h'"
    using g t by simp
  from predict_loop_trace [OF Suc.prems(1)] have "length (concat ps) \<le> length (concat ps')"
    by simp
  with Suc.prems(5,6) have below: "\<not> sl + 2 \<le> int (length (prediction st))" by simp
  show ?case
  proof (cases "?tok = 1")
    case True
    with Suc.prems(1) g t have ps': "ps' = ps" and rows': "rows' = rows @ [out]"
      by (auto simp: Let_def)
    from Suc.prems(4) rows' have "softmax_keeps_top d out" by simp
    from softmax_keeps_topD [OF this t] obtain q where
      ts: "topk d 1 (softmax d out) = Inr [(?tok, q)]" by blast
    let ?s = "\<lparr>prediction = prediction st, score = score st * q,
        normalized_score = score st * q / ((5 + (real (length (prediction st)) + 1)) / 6)
          * (real_of_int sl / (real (length (prediction st)) + 1)),
        last_output = ?tok, hidden = h'\<rparr>"
    have n: "new_state d sl st h' (?tok, q) = Inr ?s"
      using True by (simp add: new_state_def Let_def)
    have "expand_states d sl 1 [st] [] [] = Inr ([?s], [])"
      using below g ts n True Suc.prems(7,8) by simp
    then have "beam_loop fuel d sl 1 [st] [] = Some (Inr [?s])"
      using fuel by (simp add: by_score_def del: expand_states.simps)
    moreover have "prediction ?s = concat ps'" using ps' Suc.prems(6) by simp
    ultimately show ?thesis by blast
  next
    case False
    with Suc.prems(3) [unfolded tr] have real_tok: "2 < ?tok"
      and rest: "list_all (\<lambda>i. 2 < i) (takeWhile (\<lambda>i. i \<noteq> 1) (argmax_tokens d n ?tok h'))"
      by simp_all
    from False Suc.prems(2) [unfolded tr] have eos: "1 \<in> set (argmax_tokens d n ?tok h')"
      by simp
    from Suc.prems(1) g t False real_tok obtain tk where
      i: "index2token d ?tok = Some tk"
      and r: "predict_loop d n ?tok h' (rows @ [out]) (ps @ [tk]) = Inr (rows', ps')"
      by (auto simp: Let_def split: option.splits)
    from predict_loop_rows [OF r] obtain new where rows': "rows' = (rows @ [out]) @ new"
      by blast
    from Suc.prems(4) rows' have k: "softmax_keeps_top d out"
      and krest: "list_all (softmax_keeps_top d) (drop (length (rows @ [out])) rows')"
      by simp_all
    from softmax_keeps_topD [OF k t] obtain q where
      ts: "topk d 1 (softmax d out) = Inr [(?tok, q)]" by blast
    let ?s = "\<lparr>prediction = prediction st @ tk, score = score st * q,
        normalized_score = score st * q / ((5 + real (length (prediction st @ tk))) / 6),
        last_output = ?tok, hidden = h'\<rparr>"
    have n: "new_state d sl st h' (?tok, q) = Inr ?s"
      using False i by (simp add: new_state_def Let_def)
    have "expand_states d sl 1 [st] [] [] = Inr ([], [?s])"
      using below g ts n False Suc.prems(7,8) by simp
    then have l: "beam_loop fuel d sl 1 [st] [] = beam_loop f d sl 1 [?s] []"
      using fuel by (simp add: by_score_def del: expand_states.simps)
    have "\<exists>s. beam_loop f d sl 1 [?s] [] = Some (Inr [s]) \<and> prediction s = concat ps'"
    proof (rule Suc.IH [OF r eos rest krest Suc.prems(5) _ _ _ nf])
      show "prediction ?s = concat (ps @ [tk])" using Suc.prems(6) by simp
    qed simp_all
    with l show ?thesis by simp
  qed
qed

text \<open>
  Claim C3, as the code has it. When greedy decoding reaches end-of-sequence within
  \<open>max_len\<close> steps, has emitted only tokens above 2 before it, \<^verbatim>\<open>topk(1)\<close>
  picks the same index before and after the softmax on the scores of each of its steps,
  and the concatenation of its prediction is shorter than \<open>surface_len + 2\<close>, beam
  search of width one returns that concatenation.
\<close>

theorem beam_width_one_is_greedy:
  assumes "predict d we cv max_len = Inr (scores, predictions)"
    and "1 \<in> set (argmax_tokens d (nat max_len) 2 (init_hidden d we cv))"
    and "list_all (\<lambda>i. 2 < i)
           (takeWhile (\<lambda>i. i \<noteq> 1) (argmax_tokens d (nat max_len) 2 (init_hidden d we cv)))"
    and "list_all (softmax_keeps_top d) (take (greedy_steps d we cv (nat max_len)) scores)"
    and "int (length (concat predictions)) < surface_len + 2"
    and "nat max_len \<le> fuel"
  shows "predict_beam fuel d we cv surface_len 1 max_len' = Some (Inr (concat predictions))"
proof -
  from assms(1) obtain rows where
    l: "predict_loop d (nat max_len) 2 (init_hidden d we cv) [] [] = Inr (rows, predictions)"
    and sc: "scores = rows @ replicate (nat max_len - length rows) (replicate (vocab_size d) 0)"
    by (auto simp: predict_def split: if_splits sum.splits)
  from predict_loop_trace [OF l] have "length rows = greedy_steps d we cv (nat max_len)"
    by (simp add: greedy_steps_def)
  with sc assms(4) have k: "list_all (softmax_keeps_top d) (drop (length []) rows)"
    by simp
  have "\<exists>s. beam_loop fuel d surface_len 1 [initial_state d we cv] [] = Some (Inr [s])
          \<and> prediction s = concat predictions"
    by (rule beam_follows_greedy [OF l assms(2,3) k assms(5) _ _ _ assms(6)])
       (simp_all add: initial_state_def)
  then obtain s where
    b: "beam_loop fuel d surface_len 1 [initial_state d we cv] [] = Some (Inr [s])"
    and p: "prediction s = concat predictions"
    by blast
  from b have "predict_beam fuel d we cv surface_len 1 max_len' = Some (Inr (prediction s))"
    by (simp add: predict_beam_def beam_completed_def by_score_def)
  with p show ?thesis by simp
qed

lemma topk_prefers_pad: "exact_topk 1 [1, 0, 0, 0] = Inr [(0, 1)]"
  by (simp add: exact_topk_def)

lemma topk_near_tie: "exact_topk 1 [0, 0, 0, 1 / 100000000] = Inr [(3, 1 / 100000000)]"
  by (simp add: exact_topk_def)

lemma topk_flat: "exact_topk 1 [1 / 4, 1 / 4, 1 / 4, 1 / 4] = Inr [(0, 1 / 4)]"
  by (simp add: exact_topk_def)

lemma rounding_near_tie: "rounding_softmax [0, 0, 0, 1 / 100000000] = [1 / 4, 1 / 4, 1 / 4, 1 / 4]"
  by (simp add: rounding_softmax_def)

lemma rounding_eos: "rounding_softmax [0, 1, 0, 0] = exact_softmax [0, 1, 0, 0]"
  by (simp add: rounding_softmax_def)

lemma toy_predict:
  "predict (toy_decoder 2 ''a'') () () 5
     = Inr ([[0, 0, 0, 1], [0, 0, 0, 1], [0, 1, 0, 0], [0, 0, 0, 0], [0, 0, 0, 0]], [''a'', ''a''])"
  using toy_predict_loop by (simp add: predict_def toy_decoder_def eval_nat_numeral)

lemma toy_argmax_tokens:
  "argmax_tokens (toy_decoder 2 ''a'') (nat 5) 2 (init_hidden (toy_decoder 2 ''a'') () ())
     = [3, 3, 1, 1, 1]"
  by (simp add: eval_nat_numeral toy_decoder_def topk_prefers_token topk_prefers_eos)

lemma toy_softmax_keeps_top:
  "softmax_keeps_top (toy_decoder 2 ''a'') [0, 0, 0, 1]"
  "softmax_keeps_top (toy_decoder 2 ''a'') [0, 1, 0, 0]"
  by (simp_all add: softmax_keeps_top_def toy_decoder_def topk_softmax topk_prefers_token
      topk_prefers_eos)

theorem beam_width_one_is_greedy_witness:
  "predict (toy_decoder 2 ''a'') () () 5
     = Inr ([[0, 0, 0, 1], [0, 0, 0, 1], [0, 1, 0, 0], [0, 0, 0, 0], [0, 0, 0, 0]], [''a'', ''a''])
   \<and> predict_beam 5 (toy_decoder 2 ''a'') () () 2 1 50 = Some (Inr ''aa'')"
proof -
  have h2: "1 \<in> set (argmax_tokens (toy_decoder 2 ''a'') (nat 5) 2
                       (init_hidden (toy_decoder 2 ''a'') () ()))"
    unfolding toy_argmax_tokens by simp
  have h3: "list_all (\<lambda>i. 2 < i)
      (takeWhile (\<lambda>i. i \<noteq> 1)
         (argmax_tokens (toy_decoder 2 ''a'') (nat 5) 2 (init_hidden (toy_decoder 2 ''a'') () ())))"
    unfolding toy_argmax_tokens by simp
  have "greedy_steps (toy_decoder 2 ''a'') () () (nat 5) = 3"
    unfolding greedy_steps_def toy_argmax_tokens by simp
  then have h4: "list_all (softmax_keeps_top (toy_decoder 2 ''a''))
      (take (greedy_steps (toy_decoder 2 ''a'') () () (nat 5))
         [[0, 0, 0, 1], [0, 0, 0, 1], [0, 1, 0, 0], [0, 0, 0, 0], [0, 0, 0, 0]])"
    using toy_softmax_keeps_top by (simp add: eval_nat_numeral)
  have h5: "int (length (concat [''a'', ''a''])) < 2 + 2" by simp
  have h6: "nat 5 \<le> (5::nat)" by simp
  from beam_width_one_is_greedy [OF toy_predict h2 h3 h4 h5 h6, of 50] toy_predict
  show ?thesis by simp
qed

text \<open>
  The claim as written covers every input. A decoder that prefers \<open>a\<close> four times and
  then end-of-sequence, decoded with \<open>surface_len = 2\<close>: greedy decoding returns four
  tokens, while the only state of the beam reaches the length bound \<open>surface_len + 2\<close>
  and is dropped, so that \<^verbatim>\<open>predict_beam\<close> raises. A decoder that prefers the
  padding token and then end-of-sequence: greedy decoding skips the padding token, the
  beam search appends it. A decoder whose first raw scores put \<open>a\<close> ahead by
  \<^verbatim>\<open>1e-8\<close>, with a softmax that rounds: greedy decoding takes \<open>a\<close> from the raw
  scores, while the softmax row is uniform and \<^verbatim>\<open>topk\<close> is left to choose among
  equal entries; with the first index it is the padding token.
\<close>

theorem beam_width_one_is_greedy_counterexample:
  "map_sum id snd (predict (toy_decoder 4 ''a'') () () 6) = Inr [''a'', ''a'', ''a'', ''a'']
   \<and> predict_beam 6 (toy_decoder 4 ''a'') () () 2 1 6 = Some (Inl IndexError)
   \<and> map_sum id snd (predict pad_decoder () () 6) = Inr []
   \<and> predict_beam 6 pad_decoder () () 2 1 6 = Some (Inr ''_'')
   \<and> map_sum id snd (predict near_tie_decoder () () 6) = Inr [''a'']
   \<and> predict_beam 6 near_tie_decoder () () 2 1 6 = Some (Inr ''_'')
   \<and> \<not> softmax_keeps_top near_tie_decoder [0, 0, 0, 1 / 100000000]"
proof (intro conjI)
  show "map_sum id snd (predict (toy_decoder 4 ''a'') () () 6) = Inr [''a'', ''a'', ''a'', ''a'']"
    by (simp add: predict_def toy_decoder_def toy_vocab_def predict_loop_unfold
        topk_prefers_token topk_prefers_eos)
  show "predict_beam 6 (toy_decoder 4 ''a'') () () 2 1 6 = Some (Inl IndexError)"
    by (simp add: predict_beam_def beam_completed_def initial_state_def toy_decoder_def
        toy_vocab_def beam_loop_unfold topk_softmax topk_prefers_token topk_prefers_eos
        new_state_def by_score_def)
  show "map_sum id snd (predict pad_decoder () () 6) = Inr []"
    by (simp add: predict_def pad_decoder_def toy_vocab_def predict_loop_unfold
        topk_prefers_pad topk_prefers_eos)
  show "predict_beam 6 pad_decoder () () 2 1 6 = Some (Inr ''_'')"
    by (simp add: predict_beam_def beam_completed_def initial_state_def pad_decoder_def
        toy_vocab_def beam_loop_unfold topk_softmax topk_prefers_pad topk_prefers_eos
        new_state_def by_score_def)
  show "map_sum id snd (predict near_tie_decoder () () 6) = Inr [''a'']"
    by (simp add: predict_def near_tie_decoder_def toy_vocab_def predict_loop_unfold
        topk_near_tie topk_prefers_eos)
  show "predict_beam 6 near_tie_decoder () () 2 1 6 = Some (Inr ''_'')"
    by (simp add: predict_beam_def beam_completed_def initial_state_def near_tie_decoder_def
        toy_vocab_def beam_loop_unfold rounding_near_tie rounding_eos topk_flat topk_softmax
        topk_prefers_eos new_state_def by_score_def)
  show "\<not> softmax_keeps_top near_tie_decoder [0, 0, 0, 1 / 100000000]"
    by (simp add: softmax_keeps_top_def near_tie_decoder_def rounding_near_tie topk_flat
        topk_near_tie)
qed

end
